theory Spec2Isabelle
  imports Complex_Main "HOL-Library.Multiset"
begin

section \<open>The cache index of NodeDiskCache\<close>

text \<open>
  The class \<^verbatim>\<open>NodeDiskCache\<close> keeps an insertion-ordered JavaScript \<^verbatim>\<open>Map\<close> from keys
  to cache items. The map is an association list in insertion order (oldest entry first).
  Operations are modelled one at a time, each running to completion: the interleaving of
  suspended asynchronous calls is outside this model.
\<close>

type_synonym key = string

text \<open>
  A Node.js \<^verbatim>\<open>Timeout\<close> object as the cache uses it: the delay given to
  \<^verbatim>\<open>setTimeout\<close>, the time of its last (re)start, and whether \<^verbatim>\<open>clearTimeout\<close> has
  destroyed it. A timer lives in the cache item that owns it, and its callback is
  \<^verbatim>\<open>this.delete(key, cache)\<close> for that item.
\<close>

record Timeout =
  idleTimeout :: int
  idleStart :: int
  destroyed :: bool

record CacheItem =
  fileName :: nat
  fileSize :: nat
  timeout :: "Timeout option"
  refreshTimeoutWhenGet :: bool
  related :: "key list option"

datatype error = CacheDirInUse | IOError | ProbeError

datatype logline = CleanFailed | ProbeFailed | RemoveFailed

text \<open>The two eviction policies the constructor chooses between, with the constants its
  closure captures.\<close>

datatype cleaner =
    NoCleaner
  | Ceiling real real
  | Ratio real real real

text \<open>
  One cache instance together with the part of the world its operations touch: the clock
  \<open>now\<close>, the paths \<open>removed\<close> by successful \<^verbatim>\<open>fs.remove\<close> calls (in call order) and
  the lines written with \<^verbatim>\<open>console.error\<close>.
\<close>

record cache =
  cacheDir :: string
  cacheItems :: "(key \<times> CacheItem) list"
  defaultTimeout :: int
  defaultRefreshTimeoutWhenGet :: bool
  cleanerTimer :: cleaner
  cleanerCleared :: bool
  currentSize :: int
  fileNameIndex :: nat
  now :: int
  removed :: "nat list"
  errors :: "logline list"

subsection \<open>The ordered map\<close>

definition map_get :: "key \<Rightarrow> (key \<times> 'v) list \<Rightarrow> 'v option" where
  "map_get k m = map_of m k"

definition map_has :: "key \<Rightarrow> (key \<times> 'v) list \<Rightarrow> bool" where
  "map_has k m = (map_of m k \<noteq> None)"

definition map_delete :: "key \<Rightarrow> (key \<times> 'v) list \<Rightarrow> (key \<times> 'v) list" where
  "map_delete k m = filter (\<lambda>e. fst e \<noteq> k) m"

text \<open>\<^verbatim>\<open>Map.prototype.set\<close>: a present key keeps its position, a new key goes last.\<close>

fun map_set :: "key \<Rightarrow> 'v \<Rightarrow> (key \<times> 'v) list \<Rightarrow> (key \<times> 'v) list" where
  "map_set k v [] = [(k, v)]"
| "map_set k v (e # m) = (if fst e = k then (k, v) # m else e # map_set k v m)"

subsection \<open>Timers\<close>

text \<open>
  \<^verbatim>\<open>clearTimeout\<close> destroys the timer; the handle stays in the item's field.
  \<^verbatim>\<open>timeout.refresh()\<close> restarts a live timer from the current time and does nothing
  to a destroyed one (Node sets the idle timeout of a cleared timer to -1 and
  \<^verbatim>\<open>refresh\<close> returns without enrolling it again).
\<close>

definition clearTimeout :: "Timeout \<Rightarrow> Timeout" where
  "clearTimeout t = t\<lparr>destroyed := True\<rparr>"

definition refresh :: "int \<Rightarrow> Timeout \<Rightarrow> Timeout" where
  "refresh t0 t = (if destroyed t then t else t\<lparr>idleStart := t0\<rparr>)"

definition setTimeout :: "int \<Rightarrow> int \<Rightarrow> Timeout" where
  "setTimeout t0 ms = \<lparr>idleTimeout = ms, idleStart = t0, destroyed = False\<rparr>"

definition armed :: "CacheItem \<Rightarrow> bool" where
  "armed c = (case timeout c of None \<Rightarrow> False | Some t \<Rightarrow> \<not> destroyed t)"

definition due :: "int \<Rightarrow> CacheItem \<Rightarrow> bool" where
  "due t0 c = (case timeout c of None \<Rightarrow> False
     | Some t \<Rightarrow> \<not> destroyed t \<and> idleStart t + idleTimeout t \<le> t0)"

text \<open>\<^verbatim>\<open>if (cache.timeout) clearTimeout(cache.timeout)\<close>\<close>

definition clearItem :: "CacheItem \<Rightarrow> CacheItem" where
  "clearItem c = c\<lparr>timeout := map_option clearTimeout (timeout c)\<rparr>"

subsection \<open>delete\<close>

text \<open>
  \<^verbatim>\<open>delete(key, _cache = this._cacheItems.get(key))\<close>. The argument \<open>rf\<close> tells for
  which paths \<^verbatim>\<open>fs.remove\<close> throws. The result is the rejection (if any) and the cache
  as the call leaves it: a rejected call has already changed the index. The loop over
  \<^verbatim>\<open>_cache.related\<close> is \<open>delete_each\<close>; it stops at the first rejected call. The last
  two lines of the method, \<^verbatim>\<open>await fs.remove(...)\<close> and the update of \<^verbatim>\<open>_currentSize\<close>,
  are \<open>removeFile\<close>: they run only when the cascade has not thrown.
\<close>

definition removeFile :: "(nat \<Rightarrow> bool) \<Rightarrow> CacheItem \<Rightarrow> error option \<times> cache \<Rightarrow> error option \<times> cache" where
  "removeFile rf c r =
     (case r of
        (Some e, s') \<Rightarrow> (Some e, s')
      | (None, s') \<Rightarrow>
          if rf (fileName c) then (Some IOError, s')
          else (None, s'\<lparr>removed := removed s' @ [fileName c],
                          currentSize := currentSize s' - int (fileSize c)\<rparr>))"

function delete :: "(nat \<Rightarrow> bool) \<Rightarrow> key \<Rightarrow> CacheItem option \<Rightarrow> cache \<Rightarrow> error option \<times> cache"
  and delete_each :: "(nat \<Rightarrow> bool) \<Rightarrow> key list \<Rightarrow> cache \<Rightarrow> error option \<times> cache"
where
  "delete rf k None s = (None, s)"
| "delete rf k (Some c) s =
     removeFile rf c
       (case related (clearItem c) of
          None \<Rightarrow> (None, s\<lparr>cacheItems := map_delete k (cacheItems s)\<rparr>)
        | Some ks \<Rightarrow> delete_each rf ks (s\<lparr>cacheItems := map_delete k (cacheItems s)\<rparr>))"
| "delete_each rf [] s = (None, s)"
| "delete_each rf (k # ks) s =
     (case delete rf k (map_get k (cacheItems s)) s of
        (Some e, s') \<Rightarrow> (Some e, s')
      | (None, s') \<Rightarrow> delete_each rf ks s')"
  by pat_completeness auto

lemma length_map_delete_le: "length (map_delete k m) \<le> length m"
  by (simp add: map_delete_def)

lemma length_map_delete_less: "map_has k m \<Longrightarrow> length (map_delete k m) < length m"
  by (induction m) (auto simp: map_has_def map_delete_def le_imp_less_Suc)

lemma removeFile_items: "cacheItems (snd (removeFile rf c r)) = cacheItems (snd r)"
  by (cases r; cases "fst r") (auto simp: removeFile_def)

lemma delete_dom_length:
  "delete_delete_each_dom (Inl (rf, k, co, s)) \<Longrightarrow>
     length (cacheItems (snd (delete rf k co s))) \<le> length (cacheItems s)"
  "delete_delete_each_dom (Inr (rf, ks, s)) \<Longrightarrow>
     length (cacheItems (snd (delete_each rf ks s))) \<le> length (cacheItems s)"
proof (induct rf k co s and rf ks s rule: delete_delete_each.pinduct)
  case (1 rf k s)
  then show ?case by (simp add: delete.psimps)
next
  case (2 rf k c s)
  define s1 where "s1 = s\<lparr>cacheItems := map_delete k (cacheItems s)\<rparr>"
  define r where "r = (case related (clearItem c) of None \<Rightarrow> (None, s1)
     | Some ks \<Rightarrow> delete_each rf ks s1)"
  have s1: "length (cacheItems s1) \<le> length (cacheItems s)"
    by (simp add: s1_def length_map_delete_le)
  have "length (cacheItems (snd r)) \<le> length (cacheItems s1)"
  proof (cases "related (clearItem c)")
    case None
    then show ?thesis by (simp add: r_def)
  next
    case (Some ks)
    then show ?thesis using 2(2) [OF Some] by (simp add: r_def s1_def)
  qed
  moreover have "cacheItems (snd (delete rf k (Some c) s)) = cacheItems (snd r)"
    unfolding delete.psimps(2) [OF 2(1)] r_def [symmetric] s1_def [symmetric]
    by (rule removeFile_items)
  ultimately show ?case using s1 by simp
next
  case (3 rf s)
  then show ?case by (simp add: delete_each.psimps)
next
  case (4 rf k ks s)
  obtain x y where xy: "delete rf k (map_get k (cacheItems s)) s = (x, y)"
    by (cases "delete rf k (map_get k (cacheItems s)) s")
  have y: "length (cacheItems y) \<le> length (cacheItems s)"
    using 4(2) by (simp add: xy)
  show ?case
  proof (cases x)
    case None
    then show ?thesis
      using 4(3) [OF xy [symmetric] None] y
      by (simp add: delete_each.psimps(2) [OF 4(1)] xy)
  next
    case (Some e)
    then show ?thesis
      using y by (simp add: delete_each.psimps(2) [OF 4(1)] xy)
  qed
qed

text \<open>
  The recursion ends: a key found in the index is removed from it before the cascade
  starts, so every nested call works on a shorter index, and a key that is no longer
  there ends its call at once.
\<close>

termination delete
proof (relation "inv_image (less_than <*lex*> less_than <*lex*> less_than)
    (\<lambda>x. case x of
       Inl (rf, k, co, s) \<Rightarrow>
         (length (cacheItems s), if co \<noteq> None \<and> \<not> map_has k (cacheItems s) then 2 else 0, 0)
     | Inr (rf, ks, s) \<Rightarrow> (length (cacheItems s), 1::nat, length ks))", goal_cases)
  case 1
  then show ?case by (intro wf_inv_image wf_lex_prod wf_less_than)
next
  case (2 rf k c s ks)
  then show ?case
    using length_map_delete_less [of k "cacheItems s"] length_map_delete_le [of k "cacheItems s"]
    by (cases "map_has k (cacheItems s)") auto
next
  case (3 rf k ks s)
  then show ?case by (auto simp: map_get_def map_has_def)
next
  case (4 rf k ks s x y)
  have "snd (delete rf k (map_get k (cacheItems s)) s) = y"
    using 4(1) by (metis snd_conv)
  then show ?case
    using delete_dom_length(1) [OF 4(3)] by auto
qed

text \<open>The public call \<^verbatim>\<open>delete(key)\<close>, with the default second argument.\<close>

definition delete_key :: "(nat \<Rightarrow> bool) \<Rightarrow> key \<Rightarrow> cache \<Rightarrow> error option \<times> cache" where
  "delete_key rf k s = delete rf k (map_get k (cacheItems s)) s"

lemma clearItem_simps [simp]:
  "fileName (clearItem c) = fileName c"
  "fileSize (clearItem c) = fileSize c"
  "related (clearItem c) = related c"
  "refreshTimeoutWhenGet (clearItem c) = refreshTimeoutWhenGet c"
  by (simp_all add: clearItem_def)

lemma delete_Some:
  "delete rf k (Some c) s =
     removeFile rf c
       (case related c of
          None \<Rightarrow> (None, s\<lparr>cacheItems := map_delete k (cacheItems s)\<rparr>)
        | Some ks \<Rightarrow> delete_each rf ks (s\<lparr>cacheItems := map_delete k (cacheItems s)\<rparr>))"
  by simp

lemma delete_each_Cons:
  "delete_each rf (k # ks) s =
     (if fst (delete rf k (map_get k (cacheItems s)) s) = None
      then delete_each rf ks (snd (delete rf k (map_get k (cacheItems s)) s))
      else delete rf k (map_get k (cacheItems s)) s)"
  by (cases "delete rf k (map_get k (cacheItems s)) s"; cases "fst (delete rf k (map_get k (cacheItems s)) s)")
     auto

lemma delete_each_Cons_ok:
  "fst (delete rf k (map_get k (cacheItems s)) s) = None \<Longrightarrow>
   delete_each rf (k # ks) s = delete_each rf ks (snd (delete rf k (map_get k (cacheItems s)) s))"
  by (simp only: delete_each_Cons if_True simp_thms)

lemma delete_each_Cons_err:
  "fst (delete rf k (map_get k (cacheItems s)) s) \<noteq> None \<Longrightarrow>
   delete_each rf (k # ks) s = delete rf k (map_get k (cacheItems s)) s"
  by (simp only: delete_each_Cons if_False)

declare delete.simps(2) [simp del] delete_each.simps(2) [simp del]

lemma delete_induct [case_names None Some Nil Cons]:
  assumes "\<And>rf k s. P rf k None s"
    and "\<And>rf k c s.
      (\<And>ks. related c = Some ks \<Longrightarrow> Q rf ks (s\<lparr>cacheItems := map_delete k (cacheItems s)\<rparr>))
      \<Longrightarrow> P rf k (Some c) s"
    and "\<And>rf s. Q rf [] s"
    and "\<And>rf k ks s. P rf k (map_get k (cacheItems s)) s \<Longrightarrow>
      (fst (delete rf k (map_get k (cacheItems s)) s) = None \<Longrightarrow>
         Q rf ks (snd (delete rf k (map_get k (cacheItems s)) s)))
      \<Longrightarrow> Q rf (k # ks) s"
  shows "P rf k co s" and "Q rf ks s"
proof (induct rf k co s and rf ks s rule: delete_delete_each.induct)
  case (1 rf k s)
  show ?case by (rule assms(1))
next
  case (2 rf k c s)
  show ?case by (rule assms(2)) (rule 2, simp)
next
  case (3 rf s)
  show ?case by (rule assms(3))
next
  case (4 rf k ks s)
  show ?case
  proof (rule assms(4) [OF 4(1)])
    assume "fst (delete rf k (map_get k (cacheItems s)) s) = None"
    then show "Q rf ks (snd (delete rf k (map_get k (cacheItems s)) s))"
      using 4(2) [of None "snd (delete rf k (map_get k (cacheItems s)) s)"]
      by (metis prod.collapse)
  qed
qed


subsection \<open>The index only shrinks\<close>

definition shrinks :: "cache \<Rightarrow> cache \<Rightarrow> bool" where
  "shrinks s s' = (\<exists>D. cacheItems s' = filter (\<lambda>e. fst e \<notin> D) (cacheItems s))"

lemma shrinks_refl: "shrinks s s"
  unfolding shrinks_def by (rule exI [of _ "{}"]) simp

lemma shrinks_trans: "shrinks s s' \<Longrightarrow> shrinks s' s'' \<Longrightarrow> shrinks s s''"
proof -
  assume "shrinks s s'" "shrinks s' s''"
  then obtain D D' where "cacheItems s' = filter (\<lambda>e. fst e \<notin> D) (cacheItems s)"
    "cacheItems s'' = filter (\<lambda>e. fst e \<notin> D') (cacheItems s')"
    unfolding shrinks_def by blast
  then have "cacheItems s'' = filter (\<lambda>e. fst e \<notin> D \<union> D') (cacheItems s)"
    by (simp add: conj_commute)
  then show ?thesis unfolding shrinks_def by blast
qed

lemma shrinks_map_delete: "shrinks s (s\<lparr>cacheItems := map_delete k (cacheItems s)\<rparr>)"
  unfolding shrinks_def by (rule exI [of _ "{k}"]) (simp add: map_delete_def)

lemma shrinks_removeFile: "shrinks s (snd r) \<Longrightarrow> shrinks s (snd (removeFile rf c r))"
  by (simp add: shrinks_def removeFile_items)

lemma delete_shrinks:
  "shrinks s (snd (delete rf k co s))"
  "shrinks s (snd (delete_each rf ks s))"
proof (induct rf k co s and rf ks s rule: delete_induct)
  case (None rf k s)
  show ?case by (simp add: shrinks_refl)
next
  case (Some rf k c s)
  show ?case
  proof (cases "related c")
    case None
    then show ?thesis
      by (simp add: shrinks_removeFile shrinks_map_delete delete_Some)
  next
    case (Some ks)
    have "shrinks s (snd (delete_each rf ks (s\<lparr>cacheItems := map_delete k (cacheItems s)\<rparr>)))"
      by (rule shrinks_trans [OF shrinks_map_delete Some.hyps [OF Some]])
    then show ?thesis
      by (simp add: Some shrinks_removeFile delete_Some)
  qed
next
  case (Nil rf s)
  show ?case by (simp add: shrinks_refl)
next
  case (Cons rf k ks s)
  show ?case
  proof (cases "fst (delete rf k (map_get k (cacheItems s)) s) = None")
    case True
    then show ?thesis
      using shrinks_trans [OF Cons(1) Cons(2) [OF True]]
      by (simp only: delete_each_Cons_ok [OF True])
  next
    case False
    then show ?thesis using Cons(1) by (simp only: delete_each_Cons_err [OF False])
  qed
qed

lemma shrinks_length: "shrinks s s' \<Longrightarrow> length (cacheItems s') \<le> length (cacheItems s)"
  by (auto simp: shrinks_def)

lemma shrinks_map_of:
  "shrinks s s' \<Longrightarrow> map_of (cacheItems s') k = Some c \<Longrightarrow> map_of (cacheItems s) k = Some c"
proof -
  assume a: "shrinks s s'" "map_of (cacheItems s') k = Some c"
  then obtain D where D: "cacheItems s' = filter (\<lambda>e. fst e \<notin> D) (cacheItems s)"
    unfolding shrinks_def by blast
  have "map_of (filter (\<lambda>e. fst e \<notin> D) m) k = (if k \<in> D then None else map_of m k)" for m :: "(key \<times> CacheItem) list"
    by (induction m) auto
  then show ?thesis using a(2) D by (simp split: if_splits)
qed

lemma shrinks_distinct:
  "shrinks s s' \<Longrightarrow> distinct (map fst (cacheItems s)) \<Longrightarrow> distinct (map fst (cacheItems s'))"
  by (auto simp: shrinks_def distinct_map_filter)

lemma shrinks_set: "shrinks s s' \<Longrightarrow> set (cacheItems s') \<subseteq> set (cacheItems s)"
  by (auto simp: shrinks_def)

lemma delete_Some_length:
  "length (cacheItems (snd (delete rf k (Some c) s))) \<le> length (map_delete k (cacheItems s))"
proof -
  define s1 where "s1 = s\<lparr>cacheItems := map_delete k (cacheItems s)\<rparr>"
  have "length (cacheItems (snd (delete_each rf ks s1))) \<le> length (cacheItems s1)" for ks
    by (rule shrinks_length [OF delete_shrinks(2)])
  then show ?thesis
    by (cases "related c") (simp_all add: removeFile_items s1_def delete_Some)
qed

subsection \<open>Writes: \<^verbatim>\<open>_prepareWrite\<close>, \<^verbatim>\<open>set\<close>, \<^verbatim>\<open>move\<close>, \<^verbatim>\<open>setGroup\<close>\<close>

text \<open>
  What the artifact store answers to one write: the writer throws, the writer succeeds
  and \<^verbatim>\<open>fs.promises.stat\<close> throws, or the file is stored and \<^verbatim>\<open>stat\<close> reports its size.
\<close>

datatype write_result = WriterThrows | StatThrows | Stored nat

definition newItem :: "nat \<Rightarrow> CacheItem" where
  "newItem n = \<lparr>fileName = n, fileSize = 0, timeout = None,
     refreshTimeoutWhenGet = False, related = None\<rparr>"

text \<open>
  The item is a JavaScript object: when it comes from the index, clearing its timer before
  the write is visible through the index too (\<open>map_set\<close> on a present key), also when the
  write then fails. A new object enters the index only in the last two lines.
\<close>

definition prepareWrite ::
  "write_result \<Rightarrow> key \<Rightarrow> int \<Rightarrow> bool \<Rightarrow> key list option \<Rightarrow> cache \<Rightarrow> error option \<times> cache" where
  "prepareWrite w k ms rfl rel s =
     (let c0 = (case map_get k (cacheItems s) of Some c \<Rightarrow> c | None \<Rightarrow> newItem (fileNameIndex s));
          s0 = (case map_get k (cacheItems s) of Some c \<Rightarrow> s
                | None \<Rightarrow> s\<lparr>fileNameIndex := fileNameIndex s + 1\<rparr>);
          c1 = clearItem c0;
          s1 = (if map_has k (cacheItems s0)
                then s0\<lparr>cacheItems := map_set k c1 (cacheItems s0)\<rparr> else s0)
      in case w of
           WriterThrows \<Rightarrow> (Some IOError, s1)
         | StatThrows \<Rightarrow> (Some IOError, s1)
         | Stored n \<Rightarrow>
             (let c2 = c1\<lparr>fileSize := n, refreshTimeoutWhenGet := rfl, related := rel\<rparr>;
                  c3 = (if ms > 0 then c2\<lparr>timeout := Some (setTimeout (now s1) ms)\<rparr> else c2)
              in (None, s1\<lparr>currentSize := currentSize s1 - int (fileSize c1) + int n,
                           cacheItems := map_set k c3 (map_delete k (cacheItems s1))\<rparr>)))"

text \<open>
  \<^verbatim>\<open>set\<close> and \<^verbatim>\<open>move\<close> differ in the writer they hand to \<^verbatim>\<open>_prepareWrite\<close>
  (\<^verbatim>\<open>writeFile\<close> or a piped stream, and \<^verbatim>\<open>fs.move\<close>); the argument \<open>w\<close> is what that writer
  and the following \<^verbatim>\<open>stat\<close> do. An omitted timeout or refresh flag takes the default of
  the instance.
\<close>

definition set_cache ::
  "write_result \<Rightarrow> key \<Rightarrow> int option \<Rightarrow> bool option \<Rightarrow> key list option \<Rightarrow> cache \<Rightarrow> error option \<times> cache" where
  "set_cache w k ms rfl rel s =
     prepareWrite w k (case ms of None \<Rightarrow> defaultTimeout s | Some t \<Rightarrow> t)
       (case rfl of None \<Rightarrow> defaultRefreshTimeoutWhenGet s | Some b \<Rightarrow> b) rel s"

definition move ::
  "write_result \<Rightarrow> key \<Rightarrow> int option \<Rightarrow> bool option \<Rightarrow> key list option \<Rightarrow> cache \<Rightarrow> error option \<times> cache" where
  "move w k ms rfl rel s =
     prepareWrite w k (case ms of None \<Rightarrow> defaultTimeout s | Some t \<Rightarrow> t)
       (case rfl of None \<Rightarrow> defaultRefreshTimeoutWhenGet s | Some b \<Rightarrow> b) rel s"

text \<open>One element of the argument of \<^verbatim>\<open>setGroup\<close>; \<open>g_from\<close> tells whether \<^verbatim>\<open>from\<close> is given.\<close>

record GroupItem =
  g_key :: key
  g_from :: bool
  g_write :: write_result
  g_timeout :: "int option"
  g_refresh :: "bool option"

fun setGroup_loop :: "key list \<Rightarrow> GroupItem list \<Rightarrow> cache \<Rightarrow> error option \<times> cache" where
  "setGroup_loop rel [] s = (None, s)"
| "setGroup_loop rel (i # rest) s =
     (case (if g_from i then move (g_write i) (g_key i) (g_timeout i) (g_refresh i) (Some rel) s
            else set_cache (g_write i) (g_key i) (g_timeout i) (g_refresh i) (Some rel) s) of
        (Some e, s') \<Rightarrow> (Some e, s')
      | (None, s') \<Rightarrow> setGroup_loop rel rest s')"

definition setGroup :: "GroupItem list \<Rightarrow> cache \<Rightarrow> error option \<times> cache" where
  "setGroup items s = setGroup_loop (map g_key items) items s"

subsection \<open>Reads: \<^verbatim>\<open>get\<close>, \<^verbatim>\<open>getStream\<close>, \<^verbatim>\<open>has\<close>\<close>

text \<open>The block \<^verbatim>\<open>get\<close> and \<^verbatim>\<open>getStream\<close> share: refresh the timer and the rank in the index.\<close>

definition touch :: "key \<Rightarrow> CacheItem \<Rightarrow> cache \<Rightarrow> cache" where
  "touch k c s =
     (if refreshTimeoutWhenGet c \<and> timeout c \<noteq> None
      then s\<lparr>cacheItems :=
             map_set k (c\<lparr>timeout := map_option (refresh (now s)) (timeout c)\<rparr>)
               (map_delete k (cacheItems s))\<rparr>
      else s)"

text \<open>The value read is named by the file it comes from; \<open>None\<close> is \<^verbatim>\<open>undefined\<close>.\<close>

definition get :: "bool \<Rightarrow> key \<Rightarrow> cache \<Rightarrow> (error + nat option) \<times> cache" where
  "get readFails k s =
     (case map_get k (cacheItems s) of
        Some c \<Rightarrow> (if readFails then Inl IOError else Inr (Some (fileName c)), touch k c s)
      | None \<Rightarrow> (Inr None, s))"

definition getStream :: "key \<Rightarrow> cache \<Rightarrow> nat option \<times> cache" where
  "getStream k s =
     (case map_get k (cacheItems s) of
        Some c \<Rightarrow> (Some (fileName c), touch k c s)
      | None \<Rightarrow> (None, s))"

definition has :: "key \<Rightarrow> cache \<Rightarrow> bool" where
  "has k s = map_has k (cacheItems s)"

subsection \<open>\<^verbatim>\<open>empty\<close> and \<^verbatim>\<open>destroy\<close>\<close>

text \<open>
  A \<^verbatim>\<open>for ... of\<close> loop over a \<^verbatim>\<open>Map\<close> visits the entries in insertion order and skips
  entries deleted before it reaches them. The loop bodies of this class delete the entry
  they visit, so the next entry visited is the first entry of the map as it is then.
\<close>

function empty_loop :: "(nat \<Rightarrow> bool) \<Rightarrow> cache \<Rightarrow> cache" where
  "empty_loop rf s =
     (case cacheItems s of
        [] \<Rightarrow> s
      | (k, c) # rest \<Rightarrow>
          empty_loop rf
            (if rf (fileName c)
             then s\<lparr>cacheItems := map_delete k (cacheItems s),
                    errors := errors s @ [RemoveFailed]\<rparr>
             else s\<lparr>cacheItems := map_delete k (cacheItems s),
                    removed := removed s @ [fileName c],
                    currentSize := currentSize s - int (fileSize c)\<rparr>))"
  by pat_completeness auto

lemma map_delete_head_less:
  "length (map_delete k ((k, c) # rest)) < Suc (length rest)"
  by (simp add: map_delete_def le_imp_less_Suc)

termination empty_loop
  by (relation "measure (\<lambda>(rf, s). length (cacheItems s))")
     (auto simp: map_delete_head_less)

declare empty_loop.simps [simp del]

definition empty :: "(nat \<Rightarrow> bool) \<Rightarrow> cache \<Rightarrow> cache" where
  "empty rf s = empty_loop rf s"

definition destroy :: "(nat \<Rightarrow> bool) \<Rightarrow> cache \<Rightarrow> cache" where
  "destroy rf s = empty rf (s\<lparr>cleanerCleared := True\<rparr>)"

subsection \<open>The constructor\<close>

record NodeDiskCacheOptions =
  opt_cacheDir :: "string option"
  opt_volumeUpLimit :: "real option"
  opt_volumeUpLimitRate :: "real option"
  opt_cleanAmount :: "real option"
  opt_cleanInterval :: "real option"
  opt_timeout :: "int option"
  opt_refreshTimeoutWhenGet :: "bool option"

text \<open>\<^verbatim>\<open>options.x as number > 0\<close>: false for an option that is not given.\<close>

definition positive :: "real option \<Rightarrow> real option" where
  "positive x = (case x of None \<Rightarrow> None | Some v \<Rightarrow> if v > 0 then Some v else None)"

text \<open>\<^verbatim>\<open>Math.min(options.cleanAmount ?? 0.1, 1)\<close>\<close>

definition cleanAmount_of :: "NodeDiskCacheOptions \<Rightarrow> real" where
  "cleanAmount_of opts = min (case opt_cleanAmount opts of None \<Rightarrow> 1 / 10 | Some a \<Rightarrow> a) 1"

text \<open>
  The branch the constructor takes and the constants its interval callback captures:
  \<open>Ceiling upLimit downTo\<close> for a positive \<^verbatim>\<open>volumeUpLimit\<close>, otherwise
  \<open>Ratio upLimitRate downLimitRate cleanAmount\<close> for a positive \<^verbatim>\<open>volumeUpLimitRate\<close>.
  JavaScript numbers are read as real numbers: byte counts are integers far below
  \<open>2^53\<close>, and the rounding of the two products is not modelled.
\<close>

definition cleaner_of :: "NodeDiskCacheOptions \<Rightarrow> cleaner" where
  "cleaner_of opts =
     (case positive (opt_volumeUpLimit opts) of
        Some upLimit \<Rightarrow> Ceiling upLimit (upLimit * (1 - cleanAmount_of opts))
      | None \<Rightarrow>
          (case positive (opt_volumeUpLimitRate opts) of
             Some rate \<Rightarrow> Ratio (min rate 1) (1 - min rate 1) (cleanAmount_of opts)
           | None \<Rightarrow> NoCleaner))"

text \<open>
  \<open>new_NodeDiskCache opts tmp emptyDirFails t0 dirs\<close>: the constructor run at time \<open>t0\<close>
  with the static set \<^verbatim>\<open>_cacheDirList\<close> equal to \<open>dirs\<close>; \<open>tmp\<close> is the random default
  directory and \<open>emptyDirFails\<close> tells whether \<^verbatim>\<open>fs.emptyDirSync\<close> throws. It returns the
  new instance and the new value of the static set.
\<close>

definition new_NodeDiskCache ::
  "NodeDiskCacheOptions \<Rightarrow> string \<Rightarrow> bool \<Rightarrow> int \<Rightarrow> string set \<Rightarrow> error + cache \<times> string set" where
  "new_NodeDiskCache opts tmp emptyDirFails t0 dirs =
     (let dir = (case opt_cacheDir opts of Some d \<Rightarrow> d | None \<Rightarrow> tmp) in
      if dir \<in> dirs then Inl CacheDirInUse
      else if emptyDirFails then Inl IOError
      else Inr (\<lparr>cacheDir = dir, cacheItems = [],
                 defaultTimeout = (case opt_timeout opts of None \<Rightarrow> 0
                                   | Some t \<Rightarrow> if t > 0 then t else 0),
                 defaultRefreshTimeoutWhenGet =
                   (case opt_refreshTimeoutWhenGet opts of None \<Rightarrow> False | Some b \<Rightarrow> b),
                 cleanerTimer = cleaner_of opts, cleanerCleared = False,
                 currentSize = 0, fileNameIndex = 0, now = t0, removed = [], errors = []\<rparr>,
               insert dir dirs))"

subsection \<open>The eviction engine\<close>

text \<open>
  The loop both interval callbacks share:
  \<^verbatim>\<open>for (const item of this._cacheItems) if (this._currentSize > downTo) await this.delete(item[0], item[1]); else break;\<close>
\<close>

function walk :: "(nat \<Rightarrow> bool) \<Rightarrow> real \<Rightarrow> cache \<Rightarrow> error option \<times> cache" where
  "walk rf downTo s =
     (case cacheItems s of
        [] \<Rightarrow> (None, s)
      | (k, c) # rest \<Rightarrow>
          if real_of_int (currentSize s) > downTo
          then (if fst (delete rf k (Some c) s) = None
                then walk rf downTo (snd (delete rf k (Some c) s))
                else delete rf k (Some c) s)
          else (None, s))"
  by pat_completeness auto

termination walk
proof (relation "measure (\<lambda>(rf, downTo, s). length (cacheItems s))", goal_cases)
  case 1
  show ?case by simp
next
  case (2 rf downTo s e rest k c)
  have "length (cacheItems (snd (delete rf k (Some c) s))) \<le> length (map_delete k (cacheItems s))"
    by (rule delete_Some_length)
  also have "\<dots> < length (cacheItems s)"
  proof -
    have "cacheItems s = (k, c) # rest" using 2(1,2) by simp
    then show ?thesis by (simp add: map_delete_head_less)
  qed
  finally show ?case by simp
qed

declare walk.simps [simp del]

text \<open>\<^verbatim>\<open>try { ... } catch (error) { console.error('...', error) }\<close> around the loop.\<close>

definition logged :: "error option \<times> cache \<Rightarrow> cache" where
  "logged r = (case r of (None, s') \<Rightarrow> s' | (Some e, s') \<Rightarrow> s'\<lparr>errors := errors s' @ [CleanFailed]\<rparr>)"

text \<open>
  One run of the interval callback; \<open>usage\<close> is what \<^verbatim>\<open>diskusage.check\<close> answers, the
  available and the total bytes of the volume. In JavaScript \<^verbatim>\<open>available / 0\<close> is
  \<^verbatim>\<open>Infinity\<close> or \<^verbatim>\<open>NaN\<close>, and neither is less than a number. After
  \<^verbatim>\<open>clearInterval\<close> the callback does not run any more.
\<close>

definition tick :: "(nat \<Rightarrow> bool) \<Rightarrow> error + nat \<times> nat \<Rightarrow> cache \<Rightarrow> cache" where
  "tick rf usage s =
     (if cleanerCleared s then s
      else case cleanerTimer s of
        NoCleaner \<Rightarrow> s
      | Ceiling upLimit downTo \<Rightarrow>
          if real_of_int (currentSize s) > upLimit then logged (walk rf downTo s) else s
      | Ratio upLimitRate downLimitRate cleanAmount \<Rightarrow>
          (case usage of
             Inl e \<Rightarrow> s\<lparr>errors := errors s @ [ProbeFailed]\<rparr>
           | Inr (available, totalBytes) \<Rightarrow>
               if totalBytes \<noteq> 0 \<and> real available / real totalBytes < downLimitRate
               then logged (walk rf
                      (real_of_int (currentSize s) - real totalBytes * upLimitRate * cleanAmount) s)
               else s))"

subsection \<open>The expiration engine\<close>

text \<open>
  Time passes (\<open>elapse\<close>), and a due timer runs its callback
  \<^verbatim>\<open>this.delete(key, cache).catch(err => console.error(...))\<close> (\<open>fire\<close>). A timer is
  reachable only through the item that owns it; every path that takes an item out of the
  index clears its timer, and \<^verbatim>\<open>_prepareWrite\<close> clears the old timer before it arms a
  new one, so the timers that can still fire are those of the items in the index.
\<close>

definition elapse :: "nat \<Rightarrow> cache \<Rightarrow> cache" where
  "elapse d s = s\<lparr>now := now s + int d\<rparr>"

definition fire :: "(nat \<Rightarrow> bool) \<Rightarrow> key \<Rightarrow> cache \<Rightarrow> cache" where
  "fire rf k s =
     (case map_get k (cacheItems s) of
        None \<Rightarrow> s
      | Some c \<Rightarrow> if due (now s) c then logged (delete rf k (Some c) s) else s)"

subsection \<open>Histories of one instance\<close>

datatype op =
    Set write_result key "int option" "bool option"
  | Move write_result key "int option" "bool option"
  | SetGroup "GroupItem list"
  | Get bool key
  | GetStream key
  | Delete "nat \<Rightarrow> bool" key
  | Empty "nat \<Rightarrow> bool"
  | Destroy "nat \<Rightarrow> bool"
  | Tick "nat \<Rightarrow> bool" "error + nat \<times> nat"
  | Elapse nat
  | Fire "nat \<Rightarrow> bool" key

fun step :: "op \<Rightarrow> cache \<Rightarrow> cache" where
  "step (Set w k ms rfl) s = snd (set_cache w k ms rfl None s)"
| "step (Move w k ms rfl) s = snd (move w k ms rfl None s)"
| "step (SetGroup items) s = snd (setGroup items s)"
| "step (Get readFails k) s = snd (get readFails k s)"
| "step (GetStream k) s = snd (getStream k s)"
| "step (Delete rf k) s = snd (delete_key rf k s)"
| "step (Empty rf) s = empty rf s"
| "step (Destroy rf) s = destroy rf s"
| "step (Tick rf usage) s = tick rf usage s"
| "step (Elapse d) s = elapse d s"
| "step (Fire rf k) s = fire rf k s"

fun run :: "op list \<Rightarrow> cache \<Rightarrow> cache" where
  "run [] s = s"
| "run (x # xs) s = run xs (step x s)"

subsection \<open>Histories of the process\<close>

text \<open>
  The static set \<^verbatim>\<open>NodeDiskCache._cacheDirList\<close> and the instances constructed so far,
  each found by its cache directory. A step constructs an instance or calls an operation
  of an existing one; a constructor that throws leaves the process as it was.
\<close>

record process =
  cacheDirList :: "string set"
  instances :: "string \<Rightarrow> cache option"

datatype pop =
    New NodeDiskCacheOptions string bool int
  | Call string op

fun pstep :: "pop \<Rightarrow> process \<Rightarrow> process" where
  "pstep (New opts tmp emptyDirFails t0) p =
     (case new_NodeDiskCache opts tmp emptyDirFails t0 (cacheDirList p) of
        Inl e \<Rightarrow> p
      | Inr (c, dirs) \<Rightarrow> p\<lparr>cacheDirList := dirs, instances := (instances p)(cacheDir c := Some c)\<rparr>)"
| "pstep (Call d x) p =
     (case instances p d of
        None \<Rightarrow> p
      | Some c \<Rightarrow> p\<lparr>instances := (instances p)(d := Some (step x c))\<rparr>)"

fun prun :: "pop list \<Rightarrow> process \<Rightarrow> process" where
  "prun [] p = p"
| "prun (x # xs) p = prun xs (pstep x p)"

subsection \<open>Example states\<close>

text \<open>An instance just constructed with no options, and the same after one write.\<close>

definition no_options :: NodeDiskCacheOptions where
  "no_options = \<lparr>opt_cacheDir = None, opt_volumeUpLimit = None, opt_volumeUpLimitRate = None,
      opt_cleanAmount = None, opt_cleanInterval = None, opt_timeout = None,
      opt_refreshTimeoutWhenGet = None\<rparr>"

definition fresh :: cache where
  "fresh = \<lparr>cacheDir = ''/tmp/NodeDiskCache_1'', cacheItems = [], defaultTimeout = 0,
     defaultRefreshTimeoutWhenGet = False, cleanerTimer = NoCleaner, cleanerCleared = False,
     currentSize = 0, fileNameIndex = 0, now = 0, removed = [], errors = []\<rparr>"

lemma fresh_constructed:
  "new_NodeDiskCache \<lparr>opt_cacheDir = None, opt_volumeUpLimit = None, opt_volumeUpLimitRate = None,
      opt_cleanAmount = None, opt_cleanInterval = None, opt_timeout = None,
      opt_refreshTimeoutWhenGet = None\<rparr> ''/tmp/NodeDiskCache_1'' False 0 {}
   = Inr (fresh, {''/tmp/NodeDiskCache_1''})"
  by (simp add: new_NodeDiskCache_def fresh_def cleaner_of_def positive_def Let_def)

definition one_entry :: cache where
  "one_entry = snd (set_cache (Stored 5) ''a'' (Some 50) (Some True) None fresh)"

lemma one_entry_eq:
  "one_entry = fresh\<lparr>cacheItems := [(''a'', \<lparr>fileName = 0, fileSize = 5,
       timeout = Some \<lparr>idleTimeout = 50, idleStart = 0, destroyed = False\<rparr>,
       refreshTimeoutWhenGet = True, related = None\<rparr>)],
     currentSize := 5, fileNameIndex := 1\<rparr>"
  by (simp add: one_entry_def set_cache_def prepareWrite_def fresh_def map_get_def map_has_def
      newItem_def clearItem_def setTimeout_def map_delete_def)



definition stale_handle :: cache where
  "stale_handle = run [Set (Stored 5) ''a'' (Some 50) (Some True), Set (Stored 7) ''b'' None None,
     Set (Stored 5) ''a'' (Some 0) (Some True), Set (Stored 7) ''b'' None None] fresh"

lemma stale_handle_eq:
  "stale_handle = fresh\<lparr>cacheItems :=
      [(''a'', \<lparr>fileName = 0, fileSize = 5,
         timeout = Some \<lparr>idleTimeout = 50, idleStart = 0, destroyed = True\<rparr>,
         refreshTimeoutWhenGet = True, related = None\<rparr>),
       (''b'', \<lparr>fileName = 1, fileSize = 7, timeout = None,
         refreshTimeoutWhenGet = False, related = None\<rparr>)],
     currentSize := 12, fileNameIndex := 2\<rparr>"
  by (simp add: stale_handle_def set_cache_def prepareWrite_def fresh_def map_get_def
      map_has_def newItem_def clearItem_def map_delete_def setTimeout_def clearTimeout_def)

definition ab_items :: "GroupItem list" where
  "ab_items =
     [\<lparr>g_key = ''a'', g_from = False, g_write = Stored 5, g_timeout = Some 50, g_refresh = None\<rparr>,
      \<lparr>g_key = ''b'', g_from = True, g_write = Stored 7, g_timeout = Some 0, g_refresh = None\<rparr>]"

definition group_ab :: cache where
  "group_ab = snd (setGroup ab_items fresh)"







section \<open>Failed writes\<close>

lemma map_set_keys: "map_of m k = Some c \<Longrightarrow> map fst (map_set k v m) = map fst m"
  by (induction m) (auto split: if_splits)

lemma map_set_same:
  "map_of m k = Some c \<Longrightarrow> f (clearItem c) = f c \<Longrightarrow>
   map (\<lambda>e. f (snd e)) (map_set k (clearItem c) m) = map (\<lambda>e. f (snd e)) m"
  by (induction m) (auto split: if_splits)

lemma prepareWrite_fails:
  assumes "w = WriterThrows \<or> w = StatThrows"
  shows "fst (prepareWrite w k ms rfl rel s) = Some IOError"
    and "currentSize (snd (prepareWrite w k ms rfl rel s)) = currentSize s"
    and "map fst (cacheItems (snd (prepareWrite w k ms rfl rel s))) = map fst (cacheItems s)"
    and "map (\<lambda>e. fileSize (snd e)) (cacheItems (snd (prepareWrite w k ms rfl rel s)))
         = map (\<lambda>e. fileSize (snd e)) (cacheItems s)"
    and "map (\<lambda>e. fileName (snd e)) (cacheItems (snd (prepareWrite w k ms rfl rel s)))
         = map (\<lambda>e. fileName (snd e)) (cacheItems s)"
  using assms
  by (auto simp: prepareWrite_def Let_def map_get_def map_has_def map_set_keys
      map_set_same [where f = fileSize] map_set_same [where f = fileName]
      split: option.splits)

text \<open>
  C3. When the artifact writer of a \<^verbatim>\<open>set\<close> or \<^verbatim>\<open>move\<close> call fails (or the \<^verbatim>\<open>stat\<close>
  after it), the call is rejected, \<^verbatim>\<open>_currentSize\<close> is unchanged, and the index has the
  same keys in the same order with the same file sizes and file names: an absent key stays
  absent, a present key keeps its size and its position.
\<close>

theorem failed_write_keeps_index_and_size:
  assumes "w = WriterThrows \<or> w = StatThrows"
    and "r = set_cache w k ms rfl rel s \<or> r = move w k ms rfl rel s"
  shows "fst r = Some IOError \<and> currentSize (snd r) = currentSize s
    \<and> map fst (cacheItems (snd r)) = map fst (cacheItems s)
    \<and> map (\<lambda>e. fileSize (snd e)) (cacheItems (snd r)) = map (\<lambda>e. fileSize (snd e)) (cacheItems s)
    \<and> map (\<lambda>e. fileName (snd e)) (cacheItems (snd r)) = map (\<lambda>e. fileName (snd e)) (cacheItems s)
    \<and> has k (snd r) = has k s"
proof -
  obtain t b where r: "r = prepareWrite w k t b rel s"
    using assms(2) by (auto simp: set_cache_def move_def)
  have "has k (snd r) = has k s"
    using prepareWrite_fails(3) [OF assms(1), of k t b rel s]
    by (simp add: r has_def map_has_def map_of_eq_None_iff)
      (metis list.set_map)
  then show ?thesis
    using prepareWrite_fails [OF assms(1), of k t b rel s] by (simp add: r)
qed

theorem failed_write_witness:
  "fst (set_cache WriterThrows ''a'' None None None one_entry) = Some IOError
   \<and> currentSize (snd (set_cache WriterThrows ''a'' None None None one_entry)) = 5
   \<and> map fst (cacheItems (snd (set_cache WriterThrows ''a'' None None None one_entry))) = [''a'']
   \<and> \<not> has ''b'' (snd (move WriterThrows ''b'' None None None one_entry))"
  using failed_write_keeps_index_and_size [of WriterThrows
      "set_cache WriterThrows ''a'' None None None one_entry" "''a''" None None None one_entry]
    failed_write_keeps_index_and_size [of WriterThrows
      "move WriterThrows ''b'' None None None one_entry" "''b''" None None None one_entry]
  by (simp add: one_entry_eq fresh_def has_def map_has_def)

section \<open>The registry of cache directories\<close>

lemma pstep_keeps_dirs: "d \<in> cacheDirList p \<Longrightarrow> d \<in> cacheDirList (pstep x p)"
  by (cases x) (auto simp: new_NodeDiskCache_def Let_def split: option.splits sum.splits if_splits)

lemma prun_keeps_dirs: "d \<in> cacheDirList p \<Longrightarrow> d \<in> cacheDirList (prun xs p)"
  by (induction xs arbitrary: p) (simp_all add: pstep_keeps_dirs)

lemma new_registers:
  "new_NodeDiskCache opts tmp emptyDirFails t0 dirs = Inr (c, dirs') \<Longrightarrow> cacheDir c \<in> dirs'"
  by (auto simp: new_NodeDiskCache_def Let_def split: if_splits)

text \<open>
  C10. Once an instance has been constructed with a cache directory, every later
  construction with that directory throws, whatever the process does in between: other
  constructions and any calls on the instances, \<^verbatim>\<open>destroy\<close> of the first instance among
  them. No operation takes a directory out of \<^verbatim>\<open>_cacheDirList\<close>.
\<close>

theorem cacheDir_never_released:
  assumes "new_NodeDiskCache opts tmp emptyDirFails t0 (cacheDirList p) = Inr (c, dirs)"
    and "opt_cacheDir opts' = Some (cacheDir c)"
  shows "new_NodeDiskCache opts' tmp' emptyDirFails' t1
           (cacheDirList (prun xs (pstep (New opts tmp emptyDirFails t0) p)))
         = Inl CacheDirInUse"
proof -
  have "cacheDir c \<in> cacheDirList (pstep (New opts tmp emptyDirFails t0) p)"
    using new_registers [OF assms(1)] by (simp add: assms(1))
  then have "cacheDir c \<in> cacheDirList (prun xs (pstep (New opts tmp emptyDirFails t0) p))"
    by (rule prun_keeps_dirs)
  then show ?thesis
    by (simp add: new_NodeDiskCache_def assms(2))
qed

theorem cacheDir_never_released_witness:
  "new_NodeDiskCache no_options ''/tmp/NodeDiskCache_1'' False 0 {} = Inr (fresh, {''/tmp/NodeDiskCache_1''})
   \<and> new_NodeDiskCache (no_options\<lparr>opt_cacheDir := Some ''/tmp/NodeDiskCache_1''\<rparr>) ''/tmp/NodeDiskCache_2'' False 9
        (cacheDirList (prun [Call ''/tmp/NodeDiskCache_1'' (Destroy (\<lambda>f. False))]
           (pstep (New no_options ''/tmp/NodeDiskCache_1'' False 0)
              \<lparr>cacheDirList = {}, instances = (\<lambda>d. None)\<rparr>)))
      = Inl CacheDirInUse"
  using cacheDir_never_released [of no_options "''/tmp/NodeDiskCache_1''" False 0
      "\<lparr>cacheDirList = {}, instances = (\<lambda>d. None)\<rparr>" fresh "{''/tmp/NodeDiskCache_1''}"
      "no_options\<lparr>opt_cacheDir := Some ''/tmp/NodeDiskCache_1''\<rparr>" "''/tmp/NodeDiskCache_2''" False 9
      "[Call ''/tmp/NodeDiskCache_1'' (Destroy (\<lambda>f. False))]"]
    fresh_constructed
  by (simp add: no_options_def fresh_def)

section \<open>\<^verbatim>\<open>empty\<close>\<close>

lemma map_delete_head_distinct:
  "distinct (map fst ((k, c) # rest)) \<Longrightarrow> map_delete k ((k, c) # rest) = rest"
  by (auto simp: map_delete_def filter_id_conv)

lemma empty_loop_result:
  "distinct (map fst (cacheItems s)) \<Longrightarrow>
   empty_loop rf s = s\<lparr>cacheItems := [],
     errors := errors s @ replicate (length (filter (\<lambda>e. rf (fileName (snd e))) (cacheItems s))) RemoveFailed,
     removed := removed s @ map (\<lambda>e. fileName (snd e)) (filter (\<lambda>e. \<not> rf (fileName (snd e))) (cacheItems s)),
     currentSize := currentSize s
        - (\<Sum>e\<leftarrow>cacheItems s. if rf (fileName (snd e)) then 0 else int (fileSize (snd e)))\<rparr>"
proof (induction "cacheItems s" arbitrary: s)
  case Nil
  then show ?case by (subst empty_loop.simps) (simp add: Nil(1) [symmetric])
next
  case (Cons e rest)
  obtain k c where e: "e = (k, c)" by (cases e)
  have items: "cacheItems s = (k, c) # rest" using Cons(2) e by simp
  have md: "map_delete k ((k, c) # rest) = rest"
    using Cons(3) unfolding items by (rule map_delete_head_distinct)
  have dr: "distinct (map fst rest)" using Cons(3) by (simp add: items)
  show ?case
  proof (cases "rf (fileName c)")
    case True
    define s1 where "s1 = s\<lparr>cacheItems := rest, errors := errors s @ [RemoveFailed]\<rparr>"
    have "empty_loop rf s = empty_loop rf s1"
      by (subst empty_loop.simps) (simp add: items True md s1_def)
    also have "\<dots> = s1\<lparr>cacheItems := [],
       errors := errors s1 @ replicate (length (filter (\<lambda>e. rf (fileName (snd e))) (cacheItems s1))) RemoveFailed,
       removed := removed s1 @ map (\<lambda>e. fileName (snd e)) (filter (\<lambda>e. \<not> rf (fileName (snd e))) (cacheItems s1)),
       currentSize := currentSize s1
          - (\<Sum>e\<leftarrow>cacheItems s1. if rf (fileName (snd e)) then 0 else int (fileSize (snd e)))\<rparr>"
      by (rule Cons(1)) (simp_all add: s1_def dr)
    finally show ?thesis by (simp add: s1_def items True)
  next
    case False
    define s1 where "s1 = s\<lparr>cacheItems := rest, removed := removed s @ [fileName c],
       currentSize := currentSize s - int (fileSize c)\<rparr>"
    have "empty_loop rf s = empty_loop rf s1"
      by (subst empty_loop.simps) (simp add: items False md s1_def)
    also have "\<dots> = s1\<lparr>cacheItems := [],
       errors := errors s1 @ replicate (length (filter (\<lambda>e. rf (fileName (snd e))) (cacheItems s1))) RemoveFailed,
       removed := removed s1 @ map (\<lambda>e. fileName (snd e)) (filter (\<lambda>e. \<not> rf (fileName (snd e))) (cacheItems s1)),
       currentSize := currentSize s1
          - (\<Sum>e\<leftarrow>cacheItems s1. if rf (fileName (snd e)) then 0 else int (fileSize (snd e)))\<rparr>"
      by (rule Cons(1)) (simp_all add: s1_def dr)
    finally show ?thesis by (simp add: s1_def items False)
  qed
qed





section \<open>Refresh on read\<close>

lemma map_set_after_delete: "map_set k v (map_delete k m) = map_delete k m @ [(k, v)]"
  by (induction m) (auto simp: map_delete_def)

lemma touch_live:
  "refreshTimeoutWhenGet c \<Longrightarrow> timeout c = Some t \<Longrightarrow> \<not> destroyed t \<Longrightarrow>
   touch k c s = s\<lparr>cacheItems :=
     map_delete k (cacheItems s) @ [(k, c\<lparr>timeout := Some (t\<lparr>idleStart := now s\<rparr>)\<rparr>)]\<rparr>"
  by (simp add: touch_def map_set_after_delete refresh_def)

lemma touch_none: "\<not> refreshTimeoutWhenGet c \<or> timeout c = None \<Longrightarrow> touch k c s = s"
  by (auto simp: touch_def)

text \<open>
  What \<^verbatim>\<open>get\<close> and \<^verbatim>\<open>getStream\<close> do to a present key. With the flag set and a live timer,
  the timer is restarted at the time of the read, so it is due \<open>idleTimeout\<close> later, and
  the entry goes to the end of the index. Without the flag, or with no timer handle at
  all, nothing changes.
\<close>

lemma read_refreshes_live_timer:
  assumes "map_get k (cacheItems s) = Some c" and "refreshTimeoutWhenGet c"
    and "timeout c = Some t" and "\<not> destroyed t"
  shows "snd (get readFails k s) = snd (getStream k s)
    \<and> cacheItems (snd (get readFails k s))
        = map_delete k (cacheItems s) @ [(k, c\<lparr>timeout := Some (t\<lparr>idleStart := now s\<rparr>)\<rparr>)]
    \<and> (\<forall>t1. due t1 (c\<lparr>timeout := Some (t\<lparr>idleStart := now s\<rparr>)\<rparr>) = (now s + idleTimeout t \<le> t1))"
  using assms by (simp add: get_def getStream_def touch_live due_def)

lemma read_without_flag_or_handle:
  assumes "map_get k (cacheItems s) = Some c" and "\<not> refreshTimeoutWhenGet c \<or> timeout c = None"
  shows "snd (get readFails k s) = s \<and> snd (getStream k s) = s"
  using assms by (simp add: get_def getStream_def touch_none)

text \<open>
  C5 fails on the code for an entry that has the flag and a timer handle that is no longer
  armed. \<^verbatim>\<open>_prepareWrite\<close> clears the old timer and, when the new timeout is 0, leaves
  the cleared handle in \<^verbatim>\<open>cache.timeout\<close>; the test \<^verbatim>\<open>cache.refreshTimeoutWhenGet && cache.timeout\<close>
  of \<^verbatim>\<open>get\<close> then still holds. After \<^verbatim>\<open>set a\<close> with timeout 50 and the flag, \<^verbatim>\<open>set b\<close>,
  \<^verbatim>\<open>set a\<close> with timeout 0 and the flag and \<^verbatim>\<open>set b\<close> again, the entry of \<open>a\<close> is first in
  the index and has no armed timer, and a read of \<open>a\<close> moves it behind \<open>b\<close>.
\<close>

theorem read_reorders_entry_with_cleared_timer:
  "map fst (cacheItems stale_handle) = [''a'', ''b'']
   \<and> map_option armed (map_get ''a'' (cacheItems stale_handle)) = Some False
   \<and> map_option refreshTimeoutWhenGet (map_get ''a'' (cacheItems stale_handle)) = Some True
   \<and> map fst (cacheItems (snd (get False ''a'' stale_handle))) = [''b'', ''a'']
   \<and> map fst (cacheItems (snd (getStream ''a'' stale_handle))) = [''b'', ''a'']
   \<and> map_option armed (map_get ''a'' (cacheItems (snd (get False ''a'' stale_handle)))) = Some False"
  by (simp add: stale_handle_eq fresh_def get_def getStream_def touch_def map_get_def armed_def
      map_delete_def refresh_def)

section \<open>Groups of related keys\<close>

text \<open>
  A list of keys is a closed group of a cache when every entry found under one of its keys
  has exactly this list as its \<^verbatim>\<open>related\<close> field. This is what \<^verbatim>\<open>setGroup\<close> produces.
\<close>

definition related_group :: "key list \<Rightarrow> cache \<Rightarrow> bool" where
  "related_group ks s = (\<forall>k\<in>set ks. \<forall>c. map_get k (cacheItems s) = Some c \<longrightarrow> related c = Some ks)"

lemma related_group_shrinks: "shrinks s s' \<Longrightarrow> related_group ks s \<Longrightarrow> related_group ks s'"
  unfolding related_group_def map_get_def by (blast dest: shrinks_map_of)

lemma filter_absent:
  "\<forall>k\<in>D. map_get k m = None \<Longrightarrow> filter (\<lambda>e. fst e \<notin> D) m = m"
  by (induction m) (auto simp: map_get_def split: if_splits)

lemma map_get_filter:
  "map_get k (filter (\<lambda>e. fst e \<notin> D) m) = (if k \<in> D then None else map_get k m)"
  by (induction m) (auto simp: map_get_def)

lemma delete_group_index:
  "co = Some c \<Longrightarrow> related c = Some ks \<Longrightarrow> related_group ks s \<Longrightarrow>
     cacheItems (snd (delete rf k co s)) = filter (\<lambda>e. fst e \<notin> insert k (set ks)) (cacheItems s)"
  "set ks' \<subseteq> set ks \<Longrightarrow> related_group ks s \<Longrightarrow>
     (cacheItems (snd (delete_each rf ks' s)) = cacheItems s \<and> (\<forall>k\<in>set ks'. map_get k (cacheItems s) = None))
     \<or> cacheItems (snd (delete_each rf ks' s)) = filter (\<lambda>e. fst e \<notin> set ks) (cacheItems s)"
proof (induct rf k co s and rf ks' s arbitrary: c rule: delete_induct)
  case (None rf k s)
  then show ?case by simp
next
  case (Some rf k c' s)
  define s1 where "s1 = s\<lparr>cacheItems := map_delete k (cacheItems s)\<rparr>"
  have c: "c' = c" using Some.prems(1) by simp
  have g1: "related_group ks s1"
    using related_group_shrinks [OF shrinks_map_delete Some.prems(3)] by (simp add: s1_def)
  have "cacheItems (snd (delete_each rf ks s1)) = filter (\<lambda>e. fst e \<notin> set ks) (cacheItems s1)"
    using Some.hyps [of ks, folded s1_def] Some.prems(2) g1 c
    by (auto simp: filter_absent)
  then have "cacheItems (snd (delete rf k (Some c') s))
      = filter (\<lambda>e. fst e \<notin> set ks) (filter (\<lambda>e. fst e \<noteq> k) (cacheItems s))"
    using Some.prems(2) c by (simp add: removeFile_items s1_def map_delete_def delete_Some)
  also have "\<dots> = filter (\<lambda>e. fst e \<notin> insert k (set ks)) (cacheItems s)"
    by (simp add: conj_commute)
  finally show ?case .
next
  case (Nil rf s)
  then show ?case by simp
next
  case (Cons rf k ks' s)
  define r where "r = delete rf k (map_get k (cacheItems s)) s"
  have k: "k \<in> set ks" and sub: "set ks' \<subseteq> set ks" using Cons.prems(1) by auto
  show ?case
  proof (cases "map_get k (cacheItems s)")
    case None
    then have r: "r = (None, s)" by (simp add: r_def)
    have "delete_each rf (k # ks') s = delete_each rf ks' s"
      using r by (simp add: r_def delete_each_Cons)
    then show ?thesis
      using Cons.hyps(2) [folded r_def, OF _ sub] Cons.prems(2) r None by auto
  next
    case (Some c)
    have rel: "related c = Some ks"
      using Cons.prems(2) k Some by (simp add: related_group_def)
    have items_r: "cacheItems (snd r) = filter (\<lambda>e. fst e \<notin> set ks) (cacheItems s)"
      using Cons.hyps(1) [OF Some rel Cons.prems(2)] k
      by (simp add: r_def insert_absorb)
    show ?thesis
    proof (cases "fst r = None")
      case True
      have gr: "related_group ks (snd r)"
        using related_group_shrinks [OF delete_shrinks(1) Cons.prems(2)] by (simp add: r_def)
      have eq: "delete_each rf (k # ks') s = delete_each rf ks' (snd r)"
        using True unfolding r_def by (rule delete_each_Cons_ok)
      have "cacheItems (snd (delete_each rf ks' (snd r))) = cacheItems (snd r)"
        using Cons.hyps(2) [folded r_def, OF True sub gr] by (auto simp: items_r)
      then show ?thesis by (simp add: eq items_r)
    next
      case False
      have "delete_each rf (k # ks') s = r"
        using False unfolding r_def by (rule delete_each_Cons_err)
      then show ?thesis by (simp add: items_r)
    qed
  qed
qed

subsection \<open>What a write does to the index\<close>

lemma map_get_map_delete: "map_get k' (map_delete k m) = (if k' = k then None else map_get k' m)"
  by (induction m) (auto simp: map_get_def map_delete_def)

lemma map_get_map_set: "map_get k' (map_set k v m) = (if k' = k then Some v else map_get k' m)"
  by (induction m) (auto simp: map_get_def)

lemma prepareWrite_other:
  "k' \<noteq> k \<Longrightarrow>
   map_get k' (cacheItems (snd (prepareWrite w k ms rfl rel s))) = map_get k' (cacheItems s)"
  by (cases w)
     (auto simp: prepareWrite_def Let_def map_get_map_set map_get_map_delete split: option.splits)

lemma prepareWrite_Stored:
  "fst (prepareWrite (Stored n) k ms rfl rel s) = None"
  "\<exists>c. map_get k (cacheItems (snd (prepareWrite (Stored n) k ms rfl rel s))) = Some c
     \<and> related c = rel \<and> fileSize c = n \<and> refreshTimeoutWhenGet c = rfl"
  by (auto simp: prepareWrite_def Let_def map_get_map_set split: option.splits)

lemma prepareWrite_resolves: "fst (prepareWrite w k ms rfl rel s) = None \<longleftrightarrow> (\<exists>n. w = Stored n)"
  by (cases w) (auto simp: prepareWrite_def Let_def)

lemma setGroup_step:
  "(if g_from i then move (g_write i) (g_key i) (g_timeout i) (g_refresh i) (Some rel) s
    else set_cache (g_write i) (g_key i) (g_timeout i) (g_refresh i) (Some rel) s)
   = prepareWrite (g_write i) (g_key i)
       (case g_timeout i of None \<Rightarrow> defaultTimeout s | Some t \<Rightarrow> t)
       (case g_refresh i of None \<Rightarrow> defaultRefreshTimeoutWhenGet s | Some b \<Rightarrow> b) (Some rel) s"
  by (simp add: move_def set_cache_def)

definition write_item :: "key list \<Rightarrow> GroupItem \<Rightarrow> cache \<Rightarrow> error option \<times> cache" where
  "write_item rel i s = prepareWrite (g_write i) (g_key i)
       (case g_timeout i of None \<Rightarrow> defaultTimeout s | Some t \<Rightarrow> t)
       (case g_refresh i of None \<Rightarrow> defaultRefreshTimeoutWhenGet s | Some b \<Rightarrow> b) (Some rel) s"

lemma setGroup_loop_Cons:
  "setGroup_loop rel (i # items) s =
     (if fst (write_item rel i s) = None then setGroup_loop rel items (snd (write_item rel i s))
      else write_item rel i s)"
  by (cases "write_item rel i s"; cases "fst (write_item rel i s)")
     (auto simp: setGroup_step write_item_def)

declare setGroup_loop.simps(2) [simp del]

lemma setGroup_loop_other:
  "k \<notin> g_key ` set items \<Longrightarrow>
   map_get k (cacheItems (snd (setGroup_loop rel items s))) = map_get k (cacheItems s)"
proof (induction items arbitrary: s)
  case Nil
  then show ?case by simp
next
  case (Cons i items)
  have other: "map_get k (cacheItems (snd (write_item rel i s))) = map_get k (cacheItems s)"
    using Cons.prems unfolding write_item_def by (intro prepareWrite_other) auto
  show ?case
    using Cons.IH [of "snd (write_item rel i s)"] Cons.prems other
    by (simp add: setGroup_loop_Cons)
qed

lemma setGroup_loop_related:
  "fst (setGroup_loop rel items s) = None \<Longrightarrow> k \<in> g_key ` set items \<Longrightarrow>
   \<exists>c. map_get k (cacheItems (snd (setGroup_loop rel items s))) = Some c \<and> related c = Some rel"
proof (induction items arbitrary: s)
  case Nil
  then show ?case by simp
next
  case (Cons i items)
  define r where "r = write_item rel i s"
  have ok: "fst r = None"
    using Cons.prems(1) by (simp add: setGroup_loop_Cons r_def split: if_splits)
  then have eq: "setGroup_loop rel (i # items) s = setGroup_loop rel items (snd r)"
    by (simp add: setGroup_loop_Cons r_def)
  obtain n where n: "g_write i = Stored n"
    using ok unfolding r_def write_item_def prepareWrite_resolves by blast
  show ?case
  proof (cases "k \<in> g_key ` set items")
    case True
    then show ?thesis using Cons.IH [of "snd r"] Cons.prems(1) unfolding eq by simp
  next
    case False
    then have k: "k = g_key i" using Cons.prems(2) by auto
    have "\<exists>c. map_get k (cacheItems (snd r)) = Some c \<and> related c = Some rel"
      using prepareWrite_Stored(2) [of "g_key i" n _ _ "Some rel" s]
      unfolding r_def write_item_def n k by blast
    then show ?thesis
      using setGroup_loop_other [OF False, of rel "snd r"] unfolding eq by simp
  qed
qed

lemma group_ab_eq:
  "setGroup ab_items fresh = (None, fresh\<lparr>cacheItems :=
      [(''a'', \<lparr>fileName = 0, fileSize = 5,
         timeout = Some \<lparr>idleTimeout = 50, idleStart = 0, destroyed = False\<rparr>,
         refreshTimeoutWhenGet = False, related = Some [''a'', ''b'']\<rparr>),
       (''b'', \<lparr>fileName = 1, fileSize = 7, timeout = None,
         refreshTimeoutWhenGet = False, related = Some [''a'', ''b'']\<rparr>)],
     currentSize := 12, fileNameIndex := 2\<rparr>)"
  by (simp add: ab_items_def setGroup_def setGroup_loop_Cons write_item_def prepareWrite_def
      fresh_def map_get_def map_has_def newItem_def clearItem_def map_delete_def setTimeout_def)

lemma group_ab_state:
  "group_ab = fresh\<lparr>cacheItems :=
      [(''a'', \<lparr>fileName = 0, fileSize = 5,
         timeout = Some \<lparr>idleTimeout = 50, idleStart = 0, destroyed = False\<rparr>,
         refreshTimeoutWhenGet = False, related = Some [''a'', ''b'']\<rparr>),
       (''b'', \<lparr>fileName = 1, fileSize = 7, timeout = None,
         refreshTimeoutWhenGet = False, related = Some [''a'', ''b'']\<rparr>)],
     currentSize := 12, fileNameIndex := 2\<rparr>"
  by (simp add: group_ab_def group_ab_eq)

text \<open>
  C7, as the code has it. \<^verbatim>\<open>setGroup\<close> hands the same array \<^verbatim>\<open>items.map(item => item.key)\<close>
  to every write: after a batch whose writes all succeeded, the \<^verbatim>\<open>related\<close> field of every
  member is the list of all keys of the batch, the member's own key among them. Deleting
  any member then takes every key of the batch out of the index, whether or not removals
  of artifacts fail on the way.
\<close>

theorem setGroup_relates_all_keys:
  assumes "fst (setGroup items s) = None" and "k \<in> set (map g_key items)"
  shows "(\<exists>c. map_get k (cacheItems (snd (setGroup items s))) = Some c
            \<and> related c = Some (map g_key items))
    \<and> (\<forall>k'\<in>set (map g_key items). \<not> has k' (snd (delete_key rf k (snd (setGroup items s)))))"
proof -
  define s' where "s' = snd (setGroup items s)"
  define ks where "ks = map g_key items"
  have rel: "\<exists>c. map_get k' (cacheItems s') = Some c \<and> related c = Some ks"
    if "k' \<in> set ks" for k'
    using setGroup_loop_related [of ks items s k'] assms(1) that
    by (simp add: s'_def ks_def setGroup_def)
  have g: "related_group ks s'"
    unfolding related_group_def using rel by fastforce
  obtain c where c: "map_get k (cacheItems s') = Some c" "related c = Some ks"
    using rel [of k] assms(2) by (auto simp: ks_def)
  have "cacheItems (snd (delete_key rf k s')) = filter (\<lambda>e. fst e \<notin> insert k (set ks)) (cacheItems s')"
    unfolding delete_key_def c(1) by (rule delete_group_index(1) [OF refl c(2) g])
  then have "map_get k' (cacheItems (snd (delete_key rf k s'))) = None" if "k' \<in> set ks" for k'
    using that by (simp only: map_get_filter) simp
  then have "\<not> has k' (snd (delete_key rf k s'))" if "k' \<in> set ks" for k'
    using that by (simp add: has_def map_has_def map_get_def)
  then show ?thesis
    using c by (auto simp: s'_def ks_def)
qed

theorem setGroup_relates_all_keys_witness:
  "fst (setGroup ab_items fresh) = None
   \<and> map_option related (map_get ''b'' (cacheItems group_ab)) = Some (Some [''a'', ''b''])
   \<and> has ''a'' group_ab \<and> has ''b'' group_ab
   \<and> \<not> has ''a'' (snd (delete_key (\<lambda>f. f = 0) ''b'' group_ab))
   \<and> \<not> has ''b'' (snd (delete_key (\<lambda>f. f = 0) ''b'' group_ab))"
proof -
  have ok: "fst (setGroup ab_items fresh) = None"
    by (simp add: group_ab_eq)
  have k: "''b'' \<in> set (map g_key ab_items)"
    by (simp add: ab_items_def)
  have "\<forall>k'\<in>set (map g_key ab_items). \<not> has k' (snd (delete_key (\<lambda>f. f = 0) ''b'' group_ab))"
    using setGroup_relates_all_keys [OF ok k, of "\<lambda>f. f = 0"] by (simp add: group_ab_def)
  then have "\<not> has ''a'' (snd (delete_key (\<lambda>f. f = 0) ''b'' group_ab))
      \<and> \<not> has ''b'' (snd (delete_key (\<lambda>f. f = 0) ''b'' group_ab))"
    by (simp add: ab_items_def)
  then show ?thesis
    using ok by (simp add: group_ab_state fresh_def has_def map_has_def map_get_def)
qed

text \<open>
  The claim as stated fails: in the batch of \<open>a\<close> and \<open>b\<close> the related keys of \<open>a\<close> are
  \<open>a\<close> and \<open>b\<close>, not \<open>b\<close> alone.
\<close>

theorem setGroup_related_counterexample:
  "map_option related (map_get ''a'' (cacheItems group_ab)) = Some (Some [''a'', ''b''])
   \<and> map_option related (map_get ''a'' (cacheItems group_ab)) \<noteq> Some (Some [''b''])"
  by (simp add: group_ab_state fresh_def map_get_def)

section \<open>The cascade of \<^verbatim>\<open>delete\<close>\<close>

text \<open>The bytes the index accounts for, and the artifacts its entries name.\<close>

definition sizes :: "(key \<times> CacheItem) list \<Rightarrow> int" where
  "sizes m = (\<Sum>e\<leftarrow>m. int (fileSize (snd e)))"

definition files :: "(key \<times> CacheItem) list \<Rightarrow> nat multiset" where
  "files m = mset (map (\<lambda>e. fileName (snd e)) m)"

lemma filter_other_keys: "k \<notin> fst ` set m \<Longrightarrow> filter (\<lambda>e. fst e \<noteq> k) m = m"
  by (induction m) auto

lemma sizes_map_delete:
  "distinct (map fst m) \<Longrightarrow> map_get k m = Some c \<Longrightarrow>
   sizes (map_delete k m) = sizes m - int (fileSize c)"
proof (induction m)
  case Nil
  then show ?case by (simp add: map_get_def)
next
  case (Cons e m)
  show ?case
  proof (cases "fst e = k")
    case True
    then have "filter (\<lambda>e. fst e \<noteq> k) m = m"
      using Cons.prems(1) by (intro filter_other_keys) simp
    then show ?thesis
      using True Cons.prems(2) by (simp add: sizes_def map_delete_def map_get_def)
  next
    case False
    then show ?thesis
      using Cons by (simp add: sizes_def map_delete_def map_get_def)
  qed
qed

lemma files_map_delete:
  "distinct (map fst m) \<Longrightarrow> map_get k m = Some c \<Longrightarrow>
   files (map_delete k m) + {#fileName c#} = files m"
proof (induction m)
  case Nil
  then show ?case by (simp add: map_get_def)
next
  case (Cons e m)
  show ?case
  proof (cases "fst e = k")
    case True
    then have "filter (\<lambda>e. fst e \<noteq> k) m = m"
      using Cons.prems(1) by (intro filter_other_keys) simp
    then show ?thesis
      using True Cons.prems(2) by (simp add: files_def map_delete_def map_get_def)
  next
    case False
    then show ?thesis
      using Cons by (simp add: files_def map_delete_def map_get_def)
  qed
qed

lemma removeFile_ok:
  "\<not> rf (fileName c) \<Longrightarrow> fst r = None \<Longrightarrow>
   removeFile rf c r = (None, (snd r)\<lparr>removed := removed (snd r) @ [fileName c],
      currentSize := currentSize (snd r) - int (fileSize c)\<rparr>)"
  by (cases r) (simp add: removeFile_def)


lemma delete_accounts:
  "\<forall>f. \<not> rf f \<Longrightarrow> distinct (map fst (cacheItems s)) \<Longrightarrow>
     fst (delete rf k co s) = None \<and>
     (\<forall>c. co = Some c \<longrightarrow>
        currentSize (snd (delete rf k co s)) + sizes (map_delete k (cacheItems s))
          = currentSize s - int (fileSize c) + sizes (cacheItems (snd (delete rf k co s)))
        \<and> mset (removed (snd (delete rf k co s))) + files (cacheItems (snd (delete rf k co s)))
          = mset (removed s) + {#fileName c#} + files (map_delete k (cacheItems s)))"
  "\<forall>f. \<not> rf f \<Longrightarrow> distinct (map fst (cacheItems s)) \<Longrightarrow>
     fst (delete_each rf ks s) = None \<and>
     currentSize (snd (delete_each rf ks s)) + sizes (cacheItems s)
       = currentSize s + sizes (cacheItems (snd (delete_each rf ks s)))
     \<and> mset (removed (snd (delete_each rf ks s))) + files (cacheItems (snd (delete_each rf ks s)))
       = mset (removed s) + files (cacheItems s)"
proof (induct rf k co s and rf ks s rule: delete_induct)
  case (None rf k s)
  show ?case by simp
next
  case (Some rf k c s)
  define s1 where "s1 = s\<lparr>cacheItems := map_delete k (cacheItems s)\<rparr>"
  define r where "r = (case related c of None \<Rightarrow> (None, s1) | Some ks \<Rightarrow> delete_each rf ks s1)"
  have d1: "distinct (map fst (cacheItems s1))"
    using shrinks_distinct [OF shrinks_map_delete Some.prems(2)] by (simp add: s1_def)
  have r: "fst r = None
     \<and> currentSize (snd r) + sizes (cacheItems s1) = currentSize s1 + sizes (cacheItems (snd r))
     \<and> mset (removed (snd r)) + files (cacheItems (snd r)) = mset (removed s1) + files (cacheItems s1)"
  proof (cases "related c")
    case None
    then show ?thesis by (simp add: r_def)
  next
    case (Some ks)
    then show ?thesis
      using Some.hyps [OF Some Some.prems(1), folded s1_def, OF d1] by (simp add: r_def)
  qed
  have nf: "\<not> rf (fileName c)" using Some.prems(1) by simp
  have eq: "delete rf k (Some c) s = (None, (snd r)\<lparr>removed := removed (snd r) @ [fileName c],
      currentSize := currentSize (snd r) - int (fileSize c)\<rparr>)"
    unfolding delete_Some s1_def [symmetric] r_def [symmetric]
    using r by (simp add: removeFile_ok [of rf c, OF nf])
  show ?case
    using r unfolding eq by (simp add: s1_def)
next
  case (Nil rf s)
  show ?case by simp
next
  case (Cons rf k ks s)
  define r where "r = delete rf k (map_get k (cacheItems s)) s"
  have ok: "fst r = None"
    using Cons.hyps(1) [OF Cons.prems] by (simp add: r_def)
  have dr: "distinct (map fst (cacheItems (snd r)))"
    using shrinks_distinct [OF delete_shrinks(1) Cons.prems(2)] by (simp add: r_def)
  have eq: "delete_each rf (k # ks) s = delete_each rf ks (snd r)"
    using ok unfolding r_def by (rule delete_each_Cons_ok)
  have step: "currentSize (snd r) + sizes (cacheItems s) = currentSize s + sizes (cacheItems (snd r))
     \<and> mset (removed (snd r)) + files (cacheItems (snd r)) = mset (removed s) + files (cacheItems s)"
  proof (cases "map_get k (cacheItems s)")
    case None
    then show ?thesis by (simp add: r_def)
  next
    case (Some c)
    have "currentSize (snd r) + sizes (map_delete k (cacheItems s))
          = currentSize s - int (fileSize c) + sizes (cacheItems (snd r))"
      and "mset (removed (snd r)) + files (cacheItems (snd r))
          = mset (removed s) + {#fileName c#} + files (map_delete k (cacheItems s))"
      using Cons.hyps(1) [OF Cons.prems] Some by (simp_all add: r_def)
    then show ?thesis
      using sizes_map_delete [OF Cons.prems(2) Some] files_map_delete [OF Cons.prems(2) Some]
      by (simp add: add.commute add.left_commute)
  qed
  show ?case
    using Cons.hyps(2) [folded r_def, OF ok Cons.prems(1) dr] step
    unfolding eq by simp
qed






section \<open>The eviction walk\<close>

text \<open>One step of the walk: the oldest entry is deleted, with its cascade.\<close>

definition evict_oldest :: "(nat \<Rightarrow> bool) \<Rightarrow> cache \<Rightarrow> cache" where
  "evict_oldest rf s =
     (case cacheItems s of [] \<Rightarrow> s | (k, c) # rest \<Rightarrow> snd (delete rf k (Some c) s))"

text \<open>What no \<^verbatim>\<open>delete\<close> touches.\<close>

definition frame :: "cache \<Rightarrow> cache \<Rightarrow> bool" where
  "frame s s' = (cacheDir s' = cacheDir s \<and> defaultTimeout s' = defaultTimeout s
     \<and> defaultRefreshTimeoutWhenGet s' = defaultRefreshTimeoutWhenGet s
     \<and> cleanerTimer s' = cleanerTimer s \<and> cleanerCleared s' = cleanerCleared s
     \<and> fileNameIndex s' = fileNameIndex s \<and> now s' = now s \<and> errors s' = errors s)"

lemma frame_refl: "frame s s"
  by (simp add: frame_def)

lemma frame_trans: "frame s s' \<Longrightarrow> frame s' s'' \<Longrightarrow> frame s s''"
  by (simp add: frame_def)

lemma frame_removeFile: "frame s (snd r) \<Longrightarrow> frame s (snd (removeFile rf c r))"
  by (cases r; cases "fst r") (auto simp: removeFile_def frame_def)

lemma delete_frame:
  "frame s (snd (delete rf k co s))"
  "frame s (snd (delete_each rf ks s))"
proof (induct rf k co s and rf ks s rule: delete_induct)
  case (None rf k s)
  show ?case by (simp add: frame_refl)
next
  case (Some rf k c s)
  have "frame s (s\<lparr>cacheItems := map_delete k (cacheItems s)\<rparr>)"
    by (simp add: frame_def)
  then have "frame s (snd (case related c of
      None \<Rightarrow> (None, s\<lparr>cacheItems := map_delete k (cacheItems s)\<rparr>)
    | Some ks \<Rightarrow> delete_each rf ks (s\<lparr>cacheItems := map_delete k (cacheItems s)\<rparr>)))"
    using Some.hyps by (cases "related c") (auto intro: frame_trans)
  then show ?case
    unfolding delete_Some by (rule frame_removeFile)
next
  case (Nil rf s)
  show ?case by (simp add: frame_refl)
next
  case (Cons rf k ks s)
  show ?case
  proof (cases "fst (delete rf k (map_get k (cacheItems s)) s) = None")
    case True
    show ?thesis
      unfolding delete_each_Cons_ok [OF True]
      by (rule frame_trans [OF Cons(1) Cons(2) [OF True]])
  next
    case False
    show ?thesis
      unfolding delete_each_Cons_err [OF False] by (rule Cons(1))
  qed
qed

lemma delete_resolves:
  "\<forall>f. \<not> rf f \<Longrightarrow> fst (delete rf k co s) = None"
  "\<forall>f. \<not> rf f \<Longrightarrow> fst (delete_each rf ks s) = None"
proof (induct rf k co s and rf ks s rule: delete_induct)
  case (None rf k s)
  show ?case by simp
next
  case (Some rf k c s)
  note IH = Some.hyps and nf = Some.prems
  have "fst (case related c of
      None \<Rightarrow> (None, s\<lparr>cacheItems := map_delete k (cacheItems s)\<rparr>)
    | Some ks \<Rightarrow> delete_each rf ks (s\<lparr>cacheItems := map_delete k (cacheItems s)\<rparr>)) = None"
  proof (cases "related c")
    case None
    then show ?thesis by simp
  next
    case (Some ks)
    then show ?thesis using IH [OF Some nf] by simp
  qed
  then show ?case
    unfolding delete_Some using nf by (simp add: removeFile_ok [of rf c])
next
  case (Nil rf s)
  show ?case by simp
next
  case (Cons rf k ks s)
  have ok: "fst (delete rf k (map_get k (cacheItems s)) s) = None"
    by (rule Cons(1) [OF Cons.prems])
  show ?case
    unfolding delete_each_Cons_ok [OF ok] by (rule Cons(2) [OF ok Cons.prems])
qed

lemma walk_Nil: "cacheItems s = [] \<Longrightarrow> walk rf downTo s = (None, s)"
  by (subst walk.simps) simp

lemma walk_stop: "\<not> real_of_int (currentSize s) > downTo \<Longrightarrow> walk rf downTo s = (None, s)"
  by (subst walk.simps) (simp split: list.splits)

lemma walk_step:
  "cacheItems s \<noteq> [] \<Longrightarrow> real_of_int (currentSize s) > downTo \<Longrightarrow> \<forall>f. \<not> rf f \<Longrightarrow>
   walk rf downTo s = walk rf downTo (evict_oldest rf s)"
  by (subst walk.simps) (auto simp: evict_oldest_def delete_resolves(1) split: list.splits)

text \<open>
  When no removal fails, the walk is a number of steps \<open>n\<close>, each taken with
  \<^verbatim>\<open>_currentSize\<close> above the target and an entry left to delete, and it ends at the first
  state where the target is reached or the index is empty.
\<close>

lemma walk_steps:
  assumes "\<forall>f. \<not> rf f"
  shows "\<exists>n. walk rf downTo s = (None, (evict_oldest rf ^^ n) s)
    \<and> (\<forall>m<n. real_of_int (currentSize ((evict_oldest rf ^^ m) s)) > downTo
            \<and> cacheItems ((evict_oldest rf ^^ m) s) \<noteq> [])
    \<and> (real_of_int (currentSize ((evict_oldest rf ^^ n) s)) \<le> downTo
       \<or> cacheItems ((evict_oldest rf ^^ n) s) = [])"
proof (induction "length (cacheItems s)" arbitrary: s rule: less_induct)
  case less
  show ?case
  proof (cases "cacheItems s \<noteq> [] \<and> real_of_int (currentSize s) > downTo")
    case False
    then have "walk rf downTo s = (None, s)"
      using walk_Nil walk_stop by blast
    then show ?thesis
      using False by (intro exI [of _ 0]) auto
  next
    case True
    define s1 where "s1 = evict_oldest rf s"
    obtain k c rest where items: "cacheItems s = (k, c) # rest"
      using True by (cases "cacheItems s") auto
    have "length (cacheItems s1) \<le> length (map_delete k (cacheItems s))"
      using delete_Some_length [of rf k c s] by (simp add: s1_def evict_oldest_def items)
    also have "\<dots> < length (cacheItems s)"
      by (simp add: items map_delete_head_less)
    finally obtain n where n: "walk rf downTo s1 = (None, (evict_oldest rf ^^ n) s1)"
      "\<forall>m<n. real_of_int (currentSize ((evict_oldest rf ^^ m) s1)) > downTo
            \<and> cacheItems ((evict_oldest rf ^^ m) s1) \<noteq> []"
      "real_of_int (currentSize ((evict_oldest rf ^^ n) s1)) \<le> downTo
       \<or> cacheItems ((evict_oldest rf ^^ n) s1) = []"
      using less [of s1] by blast
    have shift: "(evict_oldest rf ^^ m) s1 = (evict_oldest rf ^^ Suc m) s" for m
      by (simp add: s1_def funpow_swap1)
    have "walk rf downTo s = (None, (evict_oldest rf ^^ Suc n) s)"
      using walk_step [of s downTo rf] True assms n(1) by (simp add: s1_def [symmetric] shift del: funpow.simps)
    moreover have "real_of_int (currentSize ((evict_oldest rf ^^ m) s)) > downTo
            \<and> cacheItems ((evict_oldest rf ^^ m) s) \<noteq> []" if "m < Suc n" for m
    proof (cases m)
      case 0
      then show ?thesis using True by simp
    next
      case (Suc m')
      then show ?thesis using n(2) that unfolding shift by simp
    qed
    moreover have "real_of_int (currentSize ((evict_oldest rf ^^ Suc n) s)) \<le> downTo
       \<or> cacheItems ((evict_oldest rf ^^ Suc n) s) = []"
      using n(3) unfolding shift .
    ultimately show ?thesis by blast
  qed
qed

text \<open>The invariant of the data model: unique keys, and \<^verbatim>\<open>_currentSize\<close> the sum of the sizes.\<close>

definition consistent :: "cache \<Rightarrow> bool" where
  "consistent s = (distinct (map fst (cacheItems s)) \<and> currentSize s = sizes (cacheItems s))"

lemma delete_present_consistent:
  assumes "\<forall>f. \<not> rf f" and "consistent s" and "map_get k (cacheItems s) = Some c"
  shows "consistent (snd (delete rf k (Some c) s))"
proof -
  have d: "distinct (map fst (cacheItems s))" and sz: "currentSize s = sizes (cacheItems s)"
    using assms(2) by (simp_all add: consistent_def)
  have "currentSize (snd (delete rf k (Some c) s)) + sizes (map_delete k (cacheItems s))
      = currentSize s - int (fileSize c) + sizes (cacheItems (snd (delete rf k (Some c) s)))"
    using delete_accounts(1) [OF assms(1) d, of k "Some c"] by simp
  then have "currentSize (snd (delete rf k (Some c) s)) = sizes (cacheItems (snd (delete rf k (Some c) s)))"
    using sizes_map_delete [OF d assms(3)] sz by simp
  then show ?thesis
    using shrinks_distinct [OF delete_shrinks(1) d] by (simp add: consistent_def)
qed

lemma evict_oldest_consistent:
  assumes "\<forall>f. \<not> rf f" and "consistent s"
  shows "consistent (evict_oldest rf s)"
proof (cases "cacheItems s")
  case Nil
  then show ?thesis using assms(2) by (simp add: evict_oldest_def)
next
  case (Cons e rest)
  obtain k c where e: "e = (k, c)" by (cases e)
  have "map_get k (cacheItems s) = Some c"
    by (simp add: Cons e map_get_def)
  then show ?thesis
    using delete_present_consistent [OF assms] by (simp add: evict_oldest_def Cons e)
qed

lemma evict_steps_consistent:
  "\<forall>f. \<not> rf f \<Longrightarrow> consistent s \<Longrightarrow> consistent ((evict_oldest rf ^^ n) s)"
  by (induction n) (simp_all add: evict_oldest_consistent)



section \<open>The absolute ceiling policy\<close>





section \<open>The available-space-ratio policy\<close>

lemma walk_frame: "frame s (snd (walk rf downTo s))"
proof (induction "length (cacheItems s)" arbitrary: s rule: less_induct)
  case less
  show ?case
  proof (cases "cacheItems s")
    case Nil
    then show ?thesis by (simp add: walk_Nil frame_refl)
  next
    case (Cons e rest)
    obtain k c where e: "e = (k, c)" by (cases e)
    define r where "r = delete rf k (Some c) s"
    have fr: "frame s (snd r)" unfolding r_def by (rule delete_frame)
    have "length (cacheItems (snd r)) \<le> length (map_delete k (cacheItems s))"
      unfolding r_def by (rule delete_Some_length)
    also have "\<dots> < length (cacheItems s)"
      by (simp add: Cons e map_delete_head_less)
    finally have IH: "frame (snd r) (snd (walk rf downTo (snd r)))"
      by (rule less)
    have "walk rf downTo s =
        (if real_of_int (currentSize s) > downTo
         then (if fst r = None then walk rf downTo (snd r) else r) else (None, s))"
      by (subst walk.simps) (simp add: Cons e r_def)
    then show ?thesis
      using fr IH by (auto simp: frame_refl intro: frame_trans)
  qed
qed






section \<open>File names\<close>

text \<open>
  The invariant of the file name counter: keys are unique, no two entries share a file
  name, and every file name in the index is below \<^verbatim>\<open>_fileNameIndex\<close>. The counter is a
  natural number here; a JavaScript number stops growing at \<open>2^53\<close>.
\<close>

definition ids_ok :: "cache \<Rightarrow> bool" where
  "ids_ok s = (distinct (map fst (cacheItems s))
     \<and> distinct (map (\<lambda>e. fileName (snd e)) (cacheItems s))
     \<and> (\<forall>e\<in>set (cacheItems s). fileName (snd e) < fileNameIndex s))"

lemma ids_ok_fields:
  "cacheItems s' = cacheItems s \<Longrightarrow> fileNameIndex s' = fileNameIndex s \<Longrightarrow> ids_ok s' = ids_ok s"
  by (simp add: ids_ok_def)

lemma ids_ok_shrinks:
  "ids_ok s \<Longrightarrow> shrinks s s' \<Longrightarrow> fileNameIndex s' = fileNameIndex s \<Longrightarrow> ids_ok s'"
  by (auto simp: ids_ok_def shrinks_def distinct_map_filter)

lemma map_delete_map_set: "map_delete k (map_set k v m) = map_delete k m"
  by (induction m) (auto simp: map_delete_def)

lemma map_delete_absent: "map_get k m = None \<Longrightarrow> map_delete k m = m"
  by (induction m) (auto simp: map_delete_def map_get_def split: if_splits)

lemma ids_reinsert:
  assumes "ids_ok s" and "map_get k (cacheItems s) = Some c" and "fileName c' = fileName c"
    and "cacheItems s' = map_delete k (cacheItems s) @ [(k, c')]"
    and "fileNameIndex s' = fileNameIndex s"
  shows "ids_ok s'"
proof -
  have kc: "(k, c) \<in> set (cacheItems s)"
    using assms(2) by (auto simp: map_get_def dest: map_of_SomeD)
  have inj: "inj_on (\<lambda>e. fileName (snd e)) (set (cacheItems s))"
    using assms(1) by (simp add: ids_ok_def distinct_map)
  have other: "fileName (snd e) \<noteq> fileName c" if "e \<in> set (cacheItems s)" "fst e \<noteq> k" for e
  proof
    assume "fileName (snd e) = fileName c"
    then have "e = (k, c)" using inj_onD [OF inj _ that(1) kc] by simp
    then show False using that(2) by simp
  qed
  have "distinct (map fst (cacheItems s'))"
    using assms(1) by (auto simp: assms(4) ids_ok_def map_delete_def distinct_map_filter)
  moreover have "distinct (map (\<lambda>e. fileName (snd e)) (cacheItems s'))"
  proof -
    have "fileName c' \<notin> (\<lambda>e. fileName (snd e)) ` set (map_delete k (cacheItems s))"
    proof
      assume "fileName c' \<in> (\<lambda>e. fileName (snd e)) ` set (map_delete k (cacheItems s))"
      then obtain e where e: "e \<in> set (cacheItems s)" "fst e \<noteq> k"
        and "fileName (snd e) = fileName c'"
        by (auto simp: map_delete_def)
      then have "fileName (snd e) = fileName c" by (simp add: assms(3))
      then show False using other [OF e] by simp
    qed
    moreover have "distinct (map (\<lambda>e. fileName (snd e)) (map_delete k (cacheItems s)))"
      using assms(1) by (simp add: ids_ok_def map_delete_def distinct_map_filter)
    ultimately show ?thesis by (simp add: assms(4))
  qed
  moreover have "\<forall>e\<in>set (cacheItems s'). fileName (snd e) < fileNameIndex s'"
    using assms(1) kc by (auto simp: assms(3,4,5) ids_ok_def map_delete_def)
  ultimately show ?thesis by (simp add: ids_ok_def)
qed

lemma ids_append_fresh:
  assumes "ids_ok s" and "map_get k (cacheItems s) = None" and "fileName c' = fileNameIndex s"
    and "cacheItems s' = cacheItems s @ [(k, c')]"
    and "fileNameIndex s' = Suc (fileNameIndex s)"
  shows "ids_ok s'"
proof -
  have "k \<notin> fst ` set (cacheItems s)"
    using assms(2) by (simp add: map_get_def map_of_eq_None_iff)
  then show ?thesis
    using assms(1) by (auto simp: assms(3,4,5) ids_ok_def less_Suc_eq)
qed

text \<open>The item a successful write leaves under the key, from the item it started with.\<close>

definition stored_item :: "CacheItem \<Rightarrow> nat \<Rightarrow> int \<Rightarrow> bool \<Rightarrow> key list option \<Rightarrow> int \<Rightarrow> CacheItem" where
  "stored_item c n ms rfl rel t0 =
     (if ms > 0
      then (clearItem c)\<lparr>fileSize := n, refreshTimeoutWhenGet := rfl, related := rel,
             timeout := Some (setTimeout t0 ms)\<rparr>
      else (clearItem c)\<lparr>fileSize := n, refreshTimeoutWhenGet := rfl, related := rel\<rparr>)"

lemma map_has_iff: "map_has k m \<longleftrightarrow> map_get k m \<noteq> None"
  by (simp add: map_has_def map_get_def)

lemma prepareWrite_Stored_present:
  "map_get k (cacheItems s) = Some c \<Longrightarrow>
   prepareWrite (Stored n) k ms rfl rel s =
     (None, s\<lparr>currentSize := currentSize s - int (fileSize c) + int n,
               cacheItems := map_delete k (cacheItems s) @ [(k, stored_item c n ms rfl rel (now s))]\<rparr>)"
  by (simp add: prepareWrite_def Let_def map_has_iff map_delete_map_set map_set_after_delete
      stored_item_def)

lemma prepareWrite_Stored_absent:
  "map_get k (cacheItems s) = None \<Longrightarrow>
   prepareWrite (Stored n) k ms rfl rel s =
     (None, s\<lparr>fileNameIndex := Suc (fileNameIndex s), currentSize := currentSize s + int n,
               cacheItems := cacheItems s
                 @ [(k, stored_item (newItem (fileNameIndex s)) n ms rfl rel (now s))]\<rparr>)"
  by (simp add: prepareWrite_def Let_def map_has_iff map_delete_absent map_set_after_delete
      stored_item_def newItem_def)

lemma prepareWrite_fails_present:
  "map_get k (cacheItems s) = Some c \<Longrightarrow> w = WriterThrows \<or> w = StatThrows \<Longrightarrow>
   prepareWrite w k ms rfl rel s = (Some IOError, s\<lparr>cacheItems := map_set k (clearItem c) (cacheItems s)\<rparr>)"
  by (auto simp: prepareWrite_def Let_def map_has_iff)

lemma prepareWrite_fails_absent:
  "map_get k (cacheItems s) = None \<Longrightarrow> w = WriterThrows \<or> w = StatThrows \<Longrightarrow>
   prepareWrite w k ms rfl rel s = (Some IOError, s\<lparr>fileNameIndex := Suc (fileNameIndex s)\<rparr>)"
  by (auto simp: prepareWrite_def Let_def map_has_iff)

lemma stored_item_fileName [simp]: "fileName (stored_item c n ms rfl rel t0) = fileName c"
  by (simp add: stored_item_def)

lemma ids_ok_maps:
  "map fst (cacheItems s') = map fst (cacheItems s) \<Longrightarrow>
   map (\<lambda>e. fileName (snd e)) (cacheItems s') = map (\<lambda>e. fileName (snd e)) (cacheItems s) \<Longrightarrow>
   fileNameIndex s \<le> fileNameIndex s' \<Longrightarrow> ids_ok s \<Longrightarrow> ids_ok s'"
proof -
  assume a: "map fst (cacheItems s') = map fst (cacheItems s)"
    "map (\<lambda>e. fileName (snd e)) (cacheItems s') = map (\<lambda>e. fileName (snd e)) (cacheItems s)"
    "fileNameIndex s \<le> fileNameIndex s'" "ids_ok s"
  have img: "(\<lambda>e. fileName (snd e)) ` set (cacheItems s') = (\<lambda>e. fileName (snd e)) ` set (cacheItems s)"
    using arg_cong [OF a(2), of set] by simp
  have "\<forall>n\<in>(\<lambda>e. fileName (snd e)) ` set (cacheItems s). n < fileNameIndex s"
    using a(4) by (simp add: ids_ok_def)
  then have "\<forall>n\<in>(\<lambda>e. fileName (snd e)) ` set (cacheItems s'). n < fileNameIndex s'"
    using a(3) unfolding img by fastforce
  then have "\<forall>e\<in>set (cacheItems s'). fileName (snd e) < fileNameIndex s'"
    by simp
  then show ?thesis
    using a(4) by (simp add: ids_ok_def a(1,2))
qed

lemma prepareWrite_index:
  "fileNameIndex (snd (prepareWrite w k ms rfl rel s))
     = (if map_get k (cacheItems s) = None then Suc (fileNameIndex s) else fileNameIndex s)"
  by (cases w) (auto simp: prepareWrite_def Let_def split: option.splits)

lemma prepareWrite_ids:
  assumes "ids_ok s"
  shows "ids_ok (snd (prepareWrite w k ms rfl rel s))
    \<and> fileNameIndex s \<le> fileNameIndex (snd (prepareWrite w k ms rfl rel s))"
proof -
  have mono: "fileNameIndex s \<le> fileNameIndex (snd (prepareWrite w k ms rfl rel s))"
    by (simp add: prepareWrite_index)
  have "ids_ok (snd (prepareWrite w k ms rfl rel s))"
  proof (cases "w = WriterThrows \<or> w = StatThrows")
    case True
    show ?thesis
      by (rule ids_ok_maps [OF prepareWrite_fails(3) [OF True] prepareWrite_fails(5) [OF True] mono assms])
  next
    case False
    then obtain n where w: "w = Stored n" by (cases w) auto
    show ?thesis
    proof (cases "map_get k (cacheItems s)")
      case None
      show ?thesis
        unfolding w prepareWrite_Stored_absent [OF None] snd_conv
        by (rule ids_append_fresh [OF assms None, of "stored_item (newItem (fileNameIndex s)) n ms rfl rel (now s)"])
           (simp_all add: newItem_def)
    next
      case (Some c)
      show ?thesis
        unfolding w prepareWrite_Stored_present [OF Some] snd_conv
        by (rule ids_reinsert [OF assms Some, of "stored_item c n ms rfl rel (now s)"]) simp_all
    qed
  qed
  then show ?thesis using mono by simp
qed

lemma touch_ids:
  assumes "ids_ok s" and "map_get k (cacheItems s) = Some c"
  shows "ids_ok (touch k c s) \<and> fileNameIndex (touch k c s) = fileNameIndex s"
proof (cases "refreshTimeoutWhenGet c \<and> timeout c \<noteq> None")
  case True
  then show ?thesis
    using ids_reinsert [OF assms, of "c\<lparr>timeout := map_option (refresh (now s)) (timeout c)\<rparr>"
        "touch k c s"]
    by (simp add: touch_def map_set_after_delete)
next
  case False
  then show ?thesis using assms(1) by (auto simp: touch_def)
qed

lemma walk_shrinks: "shrinks s (snd (walk rf downTo s))"
proof (induction "length (cacheItems s)" arbitrary: s rule: less_induct)
  case less
  show ?case
  proof (cases "cacheItems s")
    case Nil
    then show ?thesis by (simp add: walk_Nil shrinks_refl)
  next
    case (Cons e rest)
    obtain k c where e: "e = (k, c)" by (cases e)
    define r where "r = delete rf k (Some c) s"
    have sr: "shrinks s (snd r)" unfolding r_def by (rule delete_shrinks)
    have "length (cacheItems (snd r)) \<le> length (map_delete k (cacheItems s))"
      unfolding r_def by (rule delete_Some_length)
    also have "\<dots> < length (cacheItems s)"
      by (simp add: Cons e map_delete_head_less)
    finally have IH: "shrinks (snd r) (snd (walk rf downTo (snd r)))"
      by (rule less)
    have "walk rf downTo s =
        (if real_of_int (currentSize s) > downTo
         then (if fst r = None then walk rf downTo (snd r) else r) else (None, s))"
      by (subst walk.simps) (simp add: Cons e r_def)
    then show ?thesis
      using sr IH by (auto simp: shrinks_refl intro: shrinks_trans)
  qed
qed

lemma logged_fields:
  "cacheItems (logged r) = cacheItems (snd r) \<and> fileNameIndex (logged r) = fileNameIndex (snd r)"
  by (cases r; cases "fst r") (auto simp: logged_def)

lemma delete_ids: "ids_ok s \<Longrightarrow> ids_ok (snd (delete rf k co s))
    \<and> fileNameIndex (snd (delete rf k co s)) = fileNameIndex s"
  using delete_shrinks(1) [of s rf k co] delete_frame(1) [of s rf k co]
  by (auto simp: frame_def intro: ids_ok_shrinks)

lemma walk_ids: "ids_ok s \<Longrightarrow> ids_ok (logged (walk rf downTo s))
    \<and> fileNameIndex (logged (walk rf downTo s)) = fileNameIndex s"
  using walk_shrinks [of s rf downTo] walk_frame [of s rf downTo]
    logged_fields [of "walk rf downTo s"]
    ids_ok_fields [of "logged (walk rf downTo s)" "snd (walk rf downTo s)"]
  by (auto simp: frame_def intro: ids_ok_shrinks)

lemma tick_ids: "ids_ok s \<Longrightarrow> ids_ok (tick rf usage s) \<and> fileNameIndex (tick rf usage s) = fileNameIndex s"
  using walk_ids [of s rf]
    ids_ok_fields [of "s\<lparr>errors := errors s @ [ProbeFailed]\<rparr>" s]
  by (auto simp: tick_def split: cleaner.splits sum.splits prod.splits)

lemma empty_ids: "ids_ok s \<Longrightarrow> ids_ok (empty rf s) \<and> fileNameIndex (empty rf s) = fileNameIndex s"
  by (simp add: ids_ok_def empty_def empty_loop_result)

lemma fire_ids: "ids_ok s \<Longrightarrow> ids_ok (fire rf k s) \<and> fileNameIndex (fire rf k s) = fileNameIndex s"
  using delete_ids [of s rf k] logged_fields
    ids_ok_fields [of "logged (delete rf k (map_get k (cacheItems s)) s)"
      "snd (delete rf k (map_get k (cacheItems s)) s)"]
  by (auto simp: fire_def split: option.splits)

lemma setGroup_ids:
  "ids_ok s \<Longrightarrow> ids_ok (snd (setGroup_loop rel items s))
     \<and> fileNameIndex s \<le> fileNameIndex (snd (setGroup_loop rel items s))"
proof (induction items arbitrary: s)
  case Nil
  then show ?case by simp
next
  case (Cons i items)
  have w: "ids_ok (snd (write_item rel i s))"
    "fileNameIndex s \<le> fileNameIndex (snd (write_item rel i s))"
    using prepareWrite_ids [OF Cons.prems] by (simp_all add: write_item_def)
  show ?case
    using w Cons.IH [OF w(1)] by (auto simp: setGroup_loop_Cons)
qed

lemma step_ids:
  assumes "ids_ok s"
  shows "ids_ok (step x s) \<and> fileNameIndex s \<le> fileNameIndex (step x s)"
proof (cases x)
  case (Set w k ms rfl)
  then show ?thesis using prepareWrite_ids [OF assms] by (simp add: set_cache_def)
next
  case (Move w k ms rfl)
  then show ?thesis using prepareWrite_ids [OF assms] by (simp add: move_def)
next
  case (SetGroup items)
  then show ?thesis using setGroup_ids [OF assms] by (simp add: setGroup_def)
next
  case (Get readFails k)
  then show ?thesis
    using touch_ids [OF assms, of k] assms by (auto simp: get_def split: option.splits)
next
  case (GetStream k)
  then show ?thesis
    using touch_ids [OF assms, of k] assms by (auto simp: getStream_def split: option.splits)
next
  case (Delete rf k)
  then show ?thesis using delete_ids [OF assms] by (simp add: delete_key_def)
next
  case (Empty rf)
  then show ?thesis using empty_ids [OF assms] by simp
next
  case (Destroy rf)
  have "ids_ok (s\<lparr>cleanerCleared := True\<rparr>)" using assms by (simp add: ids_ok_def)
  then show ?thesis using Destroy empty_ids [of "s\<lparr>cleanerCleared := True\<rparr>" rf]
    by (simp add: destroy_def)
next
  case (Tick rf usage)
  then show ?thesis using tick_ids [OF assms] by simp
next
  case (Elapse d)
  then show ?thesis using assms by (simp add: elapse_def ids_ok_def)
next
  case (Fire rf k)
  then show ?thesis using fire_ids [OF assms] by simp
qed

lemma run_ids: "ids_ok s \<Longrightarrow> ids_ok (run xs s) \<and> fileNameIndex s \<le> fileNameIndex (run xs s)"
proof (induction xs arbitrary: s)
  case Nil
  then show ?case by simp
next
  case (Cons x xs)
  show ?case
    using step_ids [OF Cons.prems, of x] Cons.IH [of "step x s"] by auto
qed

lemma map_get_append_new: "map_get k m = None \<Longrightarrow> map_get k (m @ [(k, v)]) = Some v"
  by (induction m) (auto simp: map_get_def split: if_splits)

lemma constructed_ids_ok:
  "new_NodeDiskCache opts tmp emptyDirFails t0 dirs = Inr (c, dirs') \<Longrightarrow> ids_ok c"
  by (auto simp: new_NodeDiskCache_def Let_def ids_ok_def split: if_splits)

text \<open>
  C9. In every state a history reaches from a state with the invariant (the constructor's
  state has it), the invariant holds and the counter has not gone down. A write to an
  absent key takes the current value of the counter as file name; it is above every file
  name in the index, and the counter is above it in every later state, whatever happens to
  the entry, so no later entry gets that name again (a failed write uses up the name as
  well). A write to a present key keeps the entry's file name and leaves the counter alone.
\<close>

theorem fileName_counter_increases:
  assumes "ids_ok s"
  shows "ids_ok (run xs s) \<and> fileNameIndex s \<le> fileNameIndex (run xs s)
    \<and> (map_get k (cacheItems s) = None \<longrightarrow>
         (\<exists>c. map_get k (cacheItems (snd (prepareWrite (Stored n) k ms rfl rel s))) = Some c
            \<and> fileName c = fileNameIndex s
            \<and> (\<forall>e\<in>set (cacheItems s). fileName (snd e) < fileName c))
         \<and> (\<forall>w. fileNameIndex s < fileNameIndex (run xs (snd (prepareWrite w k ms rfl rel s)))))
    \<and> (\<forall>c0. map_get k (cacheItems s) = Some c0 \<longrightarrow>
         (\<exists>c. map_get k (cacheItems (snd (prepareWrite (Stored n) k ms rfl rel s))) = Some c
            \<and> fileName c = fileName c0)
         \<and> (\<forall>w. fileNameIndex (snd (prepareWrite w k ms rfl rel s)) = fileNameIndex s))"
proof -
  have absent: "(\<exists>c. map_get k (cacheItems (snd (prepareWrite (Stored n) k ms rfl rel s))) = Some c
            \<and> fileName c = fileNameIndex s
            \<and> (\<forall>e\<in>set (cacheItems s). fileName (snd e) < fileName c))
         \<and> (\<forall>w. fileNameIndex s < fileNameIndex (run xs (snd (prepareWrite w k ms rfl rel s))))"
    if none: "map_get k (cacheItems s) = None"
  proof -
    have "map_get k (cacheItems (snd (prepareWrite (Stored n) k ms rfl rel s)))
        = Some (stored_item (newItem (fileNameIndex s)) n ms rfl rel (now s))"
      by (simp add: prepareWrite_Stored_absent [OF none] map_get_append_new [OF none])
    moreover have "fileName (stored_item (newItem (fileNameIndex s)) n ms rfl rel (now s)) = fileNameIndex s"
      by (simp add: newItem_def)
    moreover have "\<forall>e\<in>set (cacheItems s). fileName (snd e) < fileNameIndex s"
      using assms by (simp add: ids_ok_def)
    moreover have "fileNameIndex s < fileNameIndex (run xs (snd (prepareWrite w k ms rfl rel s)))" for w
    proof -
      have "ids_ok (snd (prepareWrite w k ms rfl rel s))"
        using prepareWrite_ids [OF assms] by simp
      then have "fileNameIndex (snd (prepareWrite w k ms rfl rel s))
          \<le> fileNameIndex (run xs (snd (prepareWrite w k ms rfl rel s)))"
        using run_ids by blast
      then show ?thesis by (simp add: prepareWrite_index none)
    qed
    ultimately show ?thesis by simp
  qed
  have present: "(\<exists>c. map_get k (cacheItems (snd (prepareWrite (Stored n) k ms rfl rel s))) = Some c
            \<and> fileName c = fileName c0)
         \<and> (\<forall>w. fileNameIndex (snd (prepareWrite w k ms rfl rel s)) = fileNameIndex s)"
    if some: "map_get k (cacheItems s) = Some c0" for c0
  proof -
    have "map_get k (map_delete k (cacheItems s)) = None"
      by (simp add: map_get_map_delete)
    then have "map_get k (cacheItems (snd (prepareWrite (Stored n) k ms rfl rel s)))
        = Some (stored_item c0 n ms rfl rel (now s))"
      by (simp add: prepareWrite_Stored_present [OF some] map_get_append_new)
    then show ?thesis by (simp add: prepareWrite_index some)
  qed
  show ?thesis
    using run_ids [OF assms, of xs] absent present by blast
qed

theorem fileName_counter_witness:
  "ids_ok fresh
   \<and> fileNameIndex (run [Set (Stored 5) ''a'' None None, Delete (\<lambda>f. False) ''a'',
        Set (Stored 7) ''b'' None None, Set (Stored 9) ''b'' None None] fresh) = 2
   \<and> map (\<lambda>e. fileName (snd e)) (cacheItems (run [Set (Stored 5) ''a'' None None,
        Delete (\<lambda>f. False) ''a'', Set (Stored 7) ''b'' None None,
        Set (Stored 9) ''b'' None None] fresh)) = [1]
   \<and> ids_ok (run [Set (Stored 5) ''a'' None None, Delete (\<lambda>f. False) ''a'',
        Set (Stored 7) ''b'' None None, Set (Stored 9) ''b'' None None] fresh)"
proof -
  have f: "ids_ok fresh" by (simp add: ids_ok_def fresh_def)
  have "run [Set (Stored 5) ''a'' None None, Delete (\<lambda>f. False) ''a'',
        Set (Stored 7) ''b'' None None, Set (Stored 9) ''b'' None None] fresh
      = fresh\<lparr>cacheItems := [(''b'', \<lparr>fileName = 1, fileSize = 9, timeout = None,
           refreshTimeoutWhenGet = False, related = None\<rparr>)],
         currentSize := 9, fileNameIndex := 2, removed := [0]\<rparr>"
    by (simp add: fresh_def set_cache_def prepareWrite_def map_get_def map_has_def newItem_def
        clearItem_def map_delete_def delete_key_def delete.simps(2) removeFile_def)
  then show ?thesis
    using fileName_counter_increases [OF f, of "[Set (Stored 5) ''a'' None None,
        Delete (\<lambda>f. False) ''a'', Set (Stored 7) ''b'' None None, Set (Stored 9) ''b'' None None]"]
      f by simp
qed

section \<open>Entries without a timeout\<close>

text \<open>The operations that only read or let time pass: reads, elapsed time and timers firing.\<close>

fun idle_op :: "op \<Rightarrow> bool" where
  "idle_op (Get readFails k) = True"
| "idle_op (GetStream k) = True"
| "idle_op (Elapse d) = True"
| "idle_op (Fire rf k) = True"
| "idle_op x = False"

text \<open>No other entry lists the key among its related keys; the entry under the key has no
  armed timer.\<close>

definition unreferenced :: "key \<Rightarrow> cache \<Rightarrow> bool" where
  "unreferenced k s =
     (\<forall>e\<in>set (cacheItems s). fst e \<noteq> k \<longrightarrow> (\<forall>ks. related (snd e) = Some ks \<longrightarrow> k \<notin> set ks))"

definition unarmed :: "key \<Rightarrow> cache \<Rightarrow> bool" where
  "unarmed k s = (\<forall>c. map_get k (cacheItems s) = Some c \<longrightarrow> \<not> armed c)"

lemma unreferenced_shrinks: "shrinks s s' \<Longrightarrow> unreferenced k s \<Longrightarrow> unreferenced k s'"
  using shrinks_set [of s s'] by (auto simp: unreferenced_def)

lemma unarmed_shrinks: "shrinks s s' \<Longrightarrow> unarmed k s \<Longrightarrow> unarmed k s'"
  unfolding unarmed_def map_get_def by (blast dest: shrinks_map_of)

lemma map_get_in_set: "map_get k m = Some c \<Longrightarrow> (k, c) \<in> set m"
  by (auto simp: map_get_def dest: map_of_SomeD)

lemma delete_keeps:
  "k' \<noteq> k \<Longrightarrow> (\<forall>c ks. co = Some c \<longrightarrow> related c = Some ks \<longrightarrow> k \<notin> set ks) \<Longrightarrow>
     unreferenced k s \<Longrightarrow>
     map_get k (cacheItems (snd (delete rf k' co s))) = map_get k (cacheItems s)"
  "k \<notin> set ks \<Longrightarrow> unreferenced k s \<Longrightarrow>
     map_get k (cacheItems (snd (delete_each rf ks s))) = map_get k (cacheItems s)"
proof (induct rf k' co s and rf ks s rule: delete_induct)
  case (None rf k' s)
  show ?case by simp
next
  case (Some rf k' c s)
  define s1 where "s1 = s\<lparr>cacheItems := map_delete k' (cacheItems s)\<rparr>"
  note IH = Some.hyps and prems = Some.prems
  have k1: "map_get k (cacheItems s1) = map_get k (cacheItems s)"
    using prems(1) by (simp add: s1_def map_get_map_delete)
  have u1: "unreferenced k s1"
    using unreferenced_shrinks [OF shrinks_map_delete prems(3)] by (simp add: s1_def)
  have "map_get k (cacheItems (snd (case related c of None \<Rightarrow> (None, s1)
      | Some ks \<Rightarrow> delete_each rf ks s1))) = map_get k (cacheItems s1)"
  proof (cases "related c")
    case None
    then show ?thesis by simp
  next
    case (Some ks)
    have "k \<notin> set ks" using prems(2) Some by simp
    then show ?thesis using IH [OF Some, folded s1_def, OF _ u1] by (simp add: Some)
  qed
  then show ?case
    unfolding delete_Some s1_def [symmetric] by (simp add: removeFile_items k1)
next
  case (Nil rf s)
  show ?case by simp
next
  case (Cons rf k' ks s)
  define r where "r = delete rf k' (map_get k' (cacheItems s)) s"
  have ne: "k' \<noteq> k" and rest: "k \<notin> set ks" using Cons.prems(1) by auto
  have "\<forall>c ks. map_get k' (cacheItems s) = Some c \<longrightarrow> related c = Some ks \<longrightarrow> k \<notin> set ks"
    using Cons.prems(2) ne by (auto simp: unreferenced_def dest!: map_get_in_set)
  then have kr: "map_get k (cacheItems (snd r)) = map_get k (cacheItems s)"
    unfolding r_def by (intro Cons.hyps(1) [OF ne _ Cons.prems(2)])
  show ?case
  proof (cases "fst r = None")
    case True
    have ur: "unreferenced k (snd r)"
      unfolding r_def by (rule unreferenced_shrinks [OF delete_shrinks(1) Cons.prems(2)])
    show ?thesis
      using Cons.hyps(2) [folded r_def, OF True rest ur] kr
      by (simp add: delete_each_Cons_ok [OF True [unfolded r_def]] r_def)
  next
    case False
    show ?thesis
      using kr by (simp add: delete_each_Cons_err [OF False [unfolded r_def]] r_def)
  qed
qed

lemma armed_refresh:
  "armed (c\<lparr>timeout := map_option (refresh t0) (timeout c)\<rparr>) = armed c"
  by (cases "timeout c") (auto simp: armed_def refresh_def)

lemma touch_items:
  "cacheItems (touch k' c' s) = cacheItems s
   \<or> cacheItems (touch k' c' s)
       = map_delete k' (cacheItems s) @ [(k', c'\<lparr>timeout := map_option (refresh (now s)) (timeout c')\<rparr>)]"
  by (simp add: touch_def map_set_after_delete)

lemma map_get_append_other: "k \<noteq> k' \<Longrightarrow> map_get k (m @ [(k', v)]) = map_get k m"
  by (induction m) (auto simp: map_get_def)

lemma touch_unarmed:
  assumes "unarmed k s" and "map_get k' (cacheItems s) = Some c'"
  shows "unarmed k (touch k' c' s)"
proof (cases "cacheItems (touch k' c' s) = cacheItems s")
  case True
  then show ?thesis using assms(1) by (simp add: unarmed_def)
next
  case False
  then have items: "cacheItems (touch k' c' s)
       = map_delete k' (cacheItems s) @ [(k', c'\<lparr>timeout := map_option (refresh (now s)) (timeout c')\<rparr>)]"
    using touch_items [of k' c' s] by blast
  show ?thesis
  proof (cases "k = k'")
    case True
    have "\<not> armed c'" using assms True by (simp add: unarmed_def)
    then show ?thesis
      unfolding unarmed_def items True
      by (simp add: map_get_append_new map_get_map_delete armed_refresh)
  next
    case False
    then show ?thesis
      using assms(1) unfolding unarmed_def items
      by (simp add: map_get_append_other map_get_map_delete)
  qed
qed

lemma touch_keeps:
  assumes "unreferenced k s" and "map_get k' (cacheItems s) = Some c'" and "has k s"
  shows "unreferenced k (touch k' c' s) \<and> has k (touch k' c' s)"
proof (cases "cacheItems (touch k' c' s) = cacheItems s")
  case True
  then show ?thesis using assms by (simp add: unreferenced_def has_def)
next
  case False
  then have items: "cacheItems (touch k' c' s)
       = map_delete k' (cacheItems s) @ [(k', c'\<lparr>timeout := map_option (refresh (now s)) (timeout c')\<rparr>)]"
    using touch_items [of k' c' s] by blast
  have in_s: "(k', c') \<in> set (cacheItems s)"
    using assms(2) by (rule map_get_in_set)
  have "unreferenced k (touch k' c' s)"
    using assms(1) in_s unfolding unreferenced_def items
    by (auto simp: map_delete_def)
  moreover have "has k (touch k' c' s)"
  proof (cases "k = k'")
    case True
    then show ?thesis
      by (simp add: has_def map_has_iff items map_get_append_new map_get_map_delete)
  next
    case False
    then show ?thesis
      using assms(3)
      by (simp add: has_def map_has_iff items map_get_append_other map_get_map_delete)
  qed
  ultimately show ?thesis by simp
qed

lemma fire_unarmed_noop: "unarmed k s \<Longrightarrow> fire rf k s = s"
  by (auto simp: fire_def unarmed_def due_def armed_def split: option.splits)

lemma logged_items: "cacheItems (logged r) = cacheItems (snd r)"
  by (simp add: logged_fields)

lemma fire_shrinks: "shrinks s (fire rf k' s)"
proof (cases "map_get k' (cacheItems s)")
  case None
  then show ?thesis by (simp add: fire_def shrinks_refl)
next
  case (Some c')
  have "shrinks s (logged (delete rf k' (Some c') s))"
    using delete_shrinks(1) [of s rf k' "Some c'"] by (simp add: shrinks_def logged_items)
  then show ?thesis by (simp add: fire_def Some shrinks_refl)
qed

lemma fire_keeps:
  assumes "unreferenced k s" and "unarmed k s"
  shows "map_get k (cacheItems (fire rf k' s)) = map_get k (cacheItems s)"
proof (cases "k' = k")
  case True
  then show ?thesis using fire_unarmed_noop [OF assms(2)] by simp
next
  case False
  show ?thesis
  proof (cases "map_get k' (cacheItems s)")
    case None
    then show ?thesis by (simp add: fire_def)
  next
    case (Some c')
    have "\<forall>c ks. Some c' = Some c \<longrightarrow> related c = Some ks \<longrightarrow> k \<notin> set ks"
      using assms(1) False map_get_in_set [OF Some] by (auto simp: unreferenced_def)
    then have "map_get k (cacheItems (snd (delete rf k' (Some c') s))) = map_get k (cacheItems s)"
      by (intro delete_keeps(1) [OF False _ assms(1)])
    then show ?thesis by (simp add: fire_def Some logged_items)
  qed
qed

lemma idle_step_unarmed: "idle_op x \<Longrightarrow> unarmed k s \<Longrightarrow> unarmed k (step x s)"
proof (cases x)
  case (Get readFails k')
  assume "unarmed k s"
  then show ?thesis
    using touch_unarmed [of k s k'] by (auto simp: Get get_def split: option.splits)
next
  case (GetStream k')
  assume "unarmed k s"
  then show ?thesis
    using touch_unarmed [of k s k'] by (auto simp: GetStream getStream_def split: option.splits)
next
  case (Elapse d)
  assume "unarmed k s"
  then show ?thesis by (simp add: Elapse elapse_def unarmed_def)
next
  case (Fire rf k')
  assume "unarmed k s"
  then show ?thesis using unarmed_shrinks [OF fire_shrinks] by (simp add: Fire)
qed simp_all

lemma idle_step_keeps:
  assumes "idle_op x" and "unarmed k s" and "unreferenced k s" and "has k s"
  shows "unreferenced k (step x s) \<and> has k (step x s)"
proof (cases x)
  case (Get readFails k')
  then show ?thesis
    using touch_keeps [OF assms(3) _ assms(4), of k'] assms(3,4)
    by (auto simp: get_def split: option.splits)
next
  case (GetStream k')
  then show ?thesis
    using touch_keeps [OF assms(3) _ assms(4), of k'] assms(3,4)
    by (auto simp: getStream_def split: option.splits)
next
  case (Elapse d)
  then show ?thesis using assms(3,4) by (simp add: elapse_def unreferenced_def has_def)
next
  case (Fire rf k')
  then show ?thesis
    using fire_keeps [OF assms(3,2), of rf k'] unreferenced_shrinks [OF fire_shrinks assms(3)] assms(4)
    by (simp add: has_def map_has_iff)
qed (use assms(1) in simp_all)

lemma idle_run:
  "\<forall>x\<in>set xs. idle_op x \<Longrightarrow> unarmed k s \<Longrightarrow>
   unarmed k (run xs s) \<and> (unreferenced k s \<and> has k s \<longrightarrow> has k (run xs s))"
proof (induction xs arbitrary: s)
  case Nil
  then show ?case by simp
next
  case (Cons x xs)
  have x: "idle_op x" and xs: "\<forall>x\<in>set xs. idle_op x" using Cons.prems(1) by simp_all
  have u: "unarmed k (step x s)" by (rule idle_step_unarmed [OF x Cons.prems(2)])
  show ?case
    using Cons.IH [OF xs u] idle_step_keeps [OF x Cons.prems(2)] by auto
qed

lemma stored_item_unarmed: "ms \<le> 0 \<Longrightarrow> \<not> armed (stored_item c n ms rfl rel t0)"
  by (cases "timeout c") (auto simp: stored_item_def armed_def clearItem_def clearTimeout_def)

lemma prepareWrite_zero:
  assumes "ms \<le> 0"
  shows "unarmed k (snd (prepareWrite (Stored n) k ms rfl rel s))"
    and "has k (snd (prepareWrite (Stored n) k ms rfl rel s))"
proof -
  have "\<exists>c. map_get k (cacheItems (snd (prepareWrite (Stored n) k ms rfl rel s)))
          = Some (stored_item c n ms rfl rel (now s))"
  proof (cases "map_get k (cacheItems s)")
    case None
    then show ?thesis by (auto simp: prepareWrite_Stored_absent map_get_append_new)
  next
    case (Some c)
    then show ?thesis
      by (auto simp: prepareWrite_Stored_present map_get_append_new map_get_map_delete)
  qed
  then obtain c where c: "map_get k (cacheItems (snd (prepareWrite (Stored n) k ms rfl rel s)))
          = Some (stored_item c n ms rfl rel (now s))" ..
  show "unarmed k (snd (prepareWrite (Stored n) k ms rfl rel s))"
    unfolding unarmed_def c using stored_item_unarmed [OF assms] by simp
  show "has k (snd (prepareWrite (Stored n) k ms rfl rel s))"
    by (simp add: has_def map_has_iff c)
qed

text \<open>
  C6. After a successful \<^verbatim>\<open>set\<close> or \<^verbatim>\<open>move\<close> of a key whose timeout, the argument or the
  default of the instance when it is omitted, is not positive, the key is present and the
  timer of its entry is not armed, whatever handle an earlier write left there. Over any
  sequence of \<^verbatim>\<open>get\<close> and \<^verbatim>\<open>getStream\<close> calls, elapsed time and expirations of timers, the
  timer of the entry stays unarmed and its own expiration never runs; and when no other entry
  lists the key among its related keys, the key is still present at the end.
\<close>

theorem timeout_zero_never_expires:
  assumes "s1 = snd (set_cache (Stored n) k ms rfl rel s) \<or> s1 = snd (move (Stored n) k ms rfl rel s)"
    and "(case ms of None \<Rightarrow> defaultTimeout s | Some t \<Rightarrow> t) \<le> 0"
    and "\<forall>x\<in>set xs. idle_op x"
  shows "has k s1
    \<and> (\<forall>c. map_get k (cacheItems (run xs s1)) = Some c \<longrightarrow> \<not> armed c)
    \<and> (\<forall>rf. fire rf k (run xs s1) = run xs s1)
    \<and> (unreferenced k s1 \<longrightarrow> has k (run xs s1))"
proof -
  obtain b where s1: "s1 = snd (prepareWrite (Stored n) k
      (case ms of None \<Rightarrow> defaultTimeout s | Some t \<Rightarrow> t) b rel s)"
    using assms(1) by (auto simp: set_cache_def move_def)
  have u: "unarmed k s1" and h: "has k s1"
    unfolding s1 by (rule prepareWrite_zero [OF assms(2)])+
  have r: "unarmed k (run xs s1) \<and> (unreferenced k s1 \<and> has k s1 \<longrightarrow> has k (run xs s1))"
    by (rule idle_run [OF assms(3) u])
  then have "\<forall>rf. fire rf k (run xs s1) = run xs s1"
    by (simp add: fire_unarmed_noop)
  then show ?thesis using r h by (simp add: unarmed_def)
qed

lemma rewritten_entry_eq:
  "snd (set_cache (Stored 5) ''a'' (Some 0) (Some True) None one_entry)
   = fresh\<lparr>cacheItems := [(''a'', \<lparr>fileName = 0, fileSize = 5,
       timeout = Some \<lparr>idleTimeout = 50, idleStart = 0, destroyed = True\<rparr>,
       refreshTimeoutWhenGet = True, related = None\<rparr>)],
     currentSize := 5, fileNameIndex := 1\<rparr>"
  by (simp add: one_entry_eq set_cache_def prepareWrite_def fresh_def map_get_def map_has_def
      clearItem_def clearTimeout_def map_delete_def)

theorem timeout_zero_never_expires_witness:
  "has ''a'' (run [Elapse 100, Get False ''a'', Fire (\<lambda>f. False) ''a'', GetStream ''a'']
     (snd (set_cache (Stored 5) ''a'' (Some 0) (Some True) None one_entry)))"
proof -
  let ?s1 = "snd (set_cache (Stored 5) ''a'' (Some 0) (Some True) None one_entry)"
  let ?xs = "[Elapse 100, Get False ''a'', Fire (\<lambda>f. False) ''a'', GetStream ''a'']"
  have a: "?s1 = ?s1 \<or> ?s1 = snd (move (Stored 5) ''a'' (Some 0) (Some True) None one_entry)"
    by simp
  have b: "(case Some (0::int) of None \<Rightarrow> defaultTimeout one_entry | Some t \<Rightarrow> t) \<le> 0"
    by simp
  have c: "\<forall>x\<in>set ?xs. idle_op x" by simp
  have d: "unreferenced ''a'' ?s1"
    by (simp add: rewritten_entry_eq unreferenced_def)
  show ?thesis
    using timeout_zero_never_expires [OF a b c] d by blast
qed

text \<open>
  The claim as stated fails: \<^verbatim>\<open>setGroup\<close> writes \<open>a\<close> with a timeout of 50 ms and \<open>b\<close>
  with timeout 0. The entry of \<open>b\<close> is present and has no timer; 50 ms later the timer of
  \<open>a\<close> fires, and the cascade of its \<^verbatim>\<open>delete\<close> removes \<open>b\<close>.
\<close>

theorem timeout_zero_cascade_counterexample:
  "fst (setGroup ab_items fresh) = None
   \<and> map g_key ab_items = [''a'', ''b''] \<and> map g_timeout ab_items = [Some 50, Some 0]
   \<and> has ''b'' group_ab
   \<and> map_option armed (map_get ''b'' (cacheItems group_ab)) = Some False
   \<and> \<not> has ''b'' (run [Elapse 50, Fire (\<lambda>f. False) ''a''] group_ab)"
proof -
  have "fst (setGroup ab_items fresh) = None"
    by (simp add: group_ab_eq)
  moreover have "map g_key ab_items = [''a'', ''b''] \<and> map g_timeout ab_items = [Some 50, Some 0]"
    by (simp add: ab_items_def)
  moreover have "has ''b'' group_ab
   \<and> map_option armed (map_get ''b'' (cacheItems group_ab)) = Some False
   \<and> \<not> has ''b'' (run [Elapse 50, Fire (\<lambda>f. False) ''a''] group_ab)"
    by (simp add: group_ab_state has_def map_has_def map_get_def armed_def elapse_def fire_def
        due_def logged_def delete.simps(2) delete_each.simps(2) removeFile_def map_delete_def
        clearItem_def clearTimeout_def fresh_def)
  ultimately show ?thesis by simp
qed

section \<open>Histories without failed removals\<close>

text \<open>
  The answer of \<^verbatim>\<open>fs.remove\<close> an operation runs with, for the operations that remove
  artifacts.
\<close>

fun remover :: "op \<Rightarrow> (nat \<Rightarrow> bool) option" where
  "remover (Delete rf k) = Some rf"
| "remover (Empty rf) = Some rf"
| "remover (Destroy rf) = Some rf"
| "remover (Tick rf usage) = Some rf"
| "remover (Fire rf k) = Some rf"
| "remover x = None"

lemma sizes_by_map: "sizes m = sum_list (map int (map (\<lambda>e. fileSize (snd e)) m))"
  by (simp add: sizes_def comp_def)

lemma sizes_append: "sizes (m @ [(k, c)]) = sizes m + int (fileSize c)"
  by (simp add: sizes_def)

lemma distinct_delete_append:
  "distinct (map fst m) \<Longrightarrow> distinct (map fst (map_delete k m @ [(k, c)]))"
  by (auto simp: map_delete_def distinct_map_filter)

lemma stored_item_fileSize: "fileSize (stored_item c n ms rfl rel t0) = n"
  by (simp add: stored_item_def clearItem_def)

lemma map_get_None_keys: "map_get k m = None \<Longrightarrow> k \<notin> fst ` set m"
  by (simp add: map_get_def map_of_eq_None_iff)

lemma prepareWrite_consistent:
  assumes "consistent s"
  shows "consistent (snd (prepareWrite w k ms rfl rel s))"
proof (cases "w = WriterThrows \<or> w = StatThrows")
  case True
  have "sizes (cacheItems (snd (prepareWrite w k ms rfl rel s))) = sizes (cacheItems s)"
    using prepareWrite_fails(4) [OF True, of k ms rfl rel s] by (simp add: sizes_by_map)
  then show ?thesis
    using assms prepareWrite_fails(2,3) [OF True, of k ms rfl rel s] by (simp add: consistent_def)
next
  case False
  then obtain n where w: "w = Stored n" by (cases w) auto
  have d: "distinct (map fst (cacheItems s))" and sz: "currentSize s = sizes (cacheItems s)"
    using assms by (simp_all add: consistent_def)
  show ?thesis
  proof (cases "map_get k (cacheItems s)")
    case None
    then show ?thesis
      using d sz map_get_None_keys [OF None]
      by (simp add: w prepareWrite_Stored_absent consistent_def sizes_append stored_item_fileSize)
  next
    case (Some c)
    then show ?thesis
      using distinct_delete_append [OF d] sz sizes_map_delete [OF d Some]
      by (simp add: w prepareWrite_Stored_present consistent_def sizes_append stored_item_fileSize)
  qed
qed

lemma setGroup_consistent:
  "consistent s \<Longrightarrow> consistent (snd (setGroup_loop rel items s))"
proof (induction items arbitrary: s)
  case Nil
  then show ?case by simp
next
  case (Cons i items)
  have w: "consistent (snd (write_item rel i s))"
    using prepareWrite_consistent [OF Cons.prems] by (simp add: write_item_def)
  show ?case
    using w Cons.IH [OF w] by (auto simp: setGroup_loop_Cons)
qed

lemma touch_consistent:
  assumes "consistent s" and "map_get k (cacheItems s) = Some c"
  shows "consistent (touch k c s)"
proof -
  have d: "distinct (map fst (cacheItems s))" and sz: "currentSize s = sizes (cacheItems s)"
    using assms(1) by (simp_all add: consistent_def)
  show ?thesis
    using distinct_delete_append [OF d] d sz sizes_map_delete [OF d assms(2)]
    by (simp add: touch_def map_set_after_delete consistent_def sizes_append)
qed

lemma logged_consistent: "consistent (snd r) \<Longrightarrow> consistent (logged r)"
  by (cases r; cases "fst r") (auto simp: consistent_def logged_def)

lemma delete_key_consistent:
  assumes "\<forall>f. \<not> rf f" and "consistent s"
  shows "consistent (snd (delete rf k (map_get k (cacheItems s)) s))"
proof (cases "map_get k (cacheItems s)")
  case None
  then show ?thesis using assms(2) by simp
next
  case (Some c)
  then show ?thesis using delete_present_consistent [OF assms Some] by simp
qed

lemma walk_consistent:
  assumes "\<forall>f. \<not> rf f" and "consistent s"
  shows "consistent (snd (walk rf downTo s))"
proof -
  obtain n where "walk rf downTo s = (None, (evict_oldest rf ^^ n) s)"
    using walk_steps [OF assms(1), of downTo s] by blast
  then show ?thesis using evict_steps_consistent [OF assms, of n] by simp
qed

lemma empty_consistent:
  assumes "\<forall>f. \<not> rf f" and "consistent s"
  shows "consistent (empty rf s)"
proof -
  have d: "distinct (map fst (cacheItems s))" and sz: "currentSize s = sizes (cacheItems s)"
    using assms(2) by (simp_all add: consistent_def)
  show ?thesis
    using assms(1) sz by (simp add: empty_def empty_loop_result [OF d] consistent_def sizes_def)
qed

lemma step_consistent:
  assumes "consistent s" and "\<forall>rf. remover x = Some rf \<longrightarrow> (\<forall>f. \<not> rf f)"
  shows "consistent (step x s)"
proof (cases x)
  case (Set w k ms rfl)
  then show ?thesis using prepareWrite_consistent [OF assms(1)] by (simp add: set_cache_def)
next
  case (Move w k ms rfl)
  then show ?thesis using prepareWrite_consistent [OF assms(1)] by (simp add: move_def)
next
  case (SetGroup items)
  then show ?thesis using setGroup_consistent [OF assms(1)] by (simp add: setGroup_def)
next
  case (Get readFails k)
  then show ?thesis
    using touch_consistent [OF assms(1)] assms(1) by (simp add: get_def split: option.splits)
next
  case (GetStream k)
  then show ?thesis
    using touch_consistent [OF assms(1)] assms(1) by (simp add: getStream_def split: option.splits)
next
  case (Delete rf k)
  then show ?thesis
    using delete_key_consistent [of rf s k] assms by (simp add: delete_key_def)
next
  case (Empty rf)
  then show ?thesis using empty_consistent [of rf s] assms by simp
next
  case (Destroy rf)
  have "consistent (s\<lparr>cleanerCleared := True\<rparr>)" using assms(1) by (simp add: consistent_def)
  then show ?thesis
    using empty_consistent [of rf "s\<lparr>cleanerCleared := True\<rparr>"] assms(2) Destroy
    by (simp add: destroy_def)
next
  case (Tick rf usage)
  have nf: "\<forall>f. \<not> rf f" using assms(2) Tick by simp
  have w: "consistent (logged (walk rf downTo s))" for downTo
    by (rule logged_consistent [OF walk_consistent [OF nf assms(1)]])
  have e: "consistent (s\<lparr>errors := errors s @ [ProbeFailed]\<rparr>)"
    using assms(1) by (simp add: consistent_def)
  show ?thesis
    using w e assms(1) by (simp add: Tick tick_def split: cleaner.splits sum.splits prod.splits)
next
  case (Elapse d)
  then show ?thesis using assms(1) by (simp add: elapse_def consistent_def)
next
  case (Fire rf k)
  have nf: "\<forall>f. \<not> rf f" using assms(2) Fire by simp
  show ?thesis
  proof (cases "map_get k (cacheItems s)")
    case None
    then show ?thesis using assms(1) by (simp add: Fire fire_def)
  next
    case (Some c)
    then show ?thesis
      using logged_consistent [OF delete_present_consistent [OF nf assms(1) Some]] assms(1)
      by (simp add: Fire fire_def)
  qed
qed

text \<open>
  Every state reached from a constructed instance by operations whose removals all succeed
  has unique keys and \<^verbatim>\<open>_currentSize\<close> equal to the sum of the sizes in the index; failed
  writes and failed reads are allowed.
\<close>

lemma run_consistent:
  "consistent s \<Longrightarrow> \<forall>x\<in>set xs. \<forall>rf. remover x = Some rf \<longrightarrow> (\<forall>f. \<not> rf f) \<Longrightarrow>
   consistent (run xs s)"
proof (induction xs arbitrary: s)
  case Nil
  then show ?case by simp
next
  case (Cons x xs)
  have x: "\<forall>rf. remover x = Some rf \<longrightarrow> (\<forall>f. \<not> rf f)"
    and xs: "\<forall>x\<in>set xs. \<forall>rf. remover x = Some rf \<longrightarrow> (\<forall>f. \<not> rf f)"
    using Cons.prems(2) by (blast intro: list.set_intros)+
  have "consistent (step x s)" by (rule step_consistent [OF Cons.prems(1) x])
  then show ?case using Cons.IH [OF _ xs] by simp
qed

lemma constructed_consistent:
  "new_NodeDiskCache opts tmp emptyDirFails t0 dirs = Inr (c, dirs') \<Longrightarrow> consistent c"
  by (auto simp: new_NodeDiskCache_def Let_def consistent_def sizes_def split: if_splits)

end
